theory Spec2Isabelle
  imports Main
begin

section \<open>JavaScript values\<close>

text \<open>
  A JavaScript string is a sequence of UTF-16 code units: \<open>length\<close>, \<open>slice\<close>,
  \<open>indexOf\<close> and the regular expressions of \<^verbatim>\<open>server.js\<close> all count code units.
  Numbers are modelled at integer granularity (token counts, byte sizes and
  millisecond timestamps), together with the three non-finite values that
  \<^verbatim>\<open>Number.isFinite\<close> tells apart.
\<close>

type_synonym jsstr = "nat list"

definition str :: "string \<Rightarrow> jsstr" where
  "str s = map of_char s"

datatype jsnum = Fin int | NaN | PosInf | NegInf

datatype json =
    JUndef
  | JNull
  | JBool bool
  | JNum jsnum
  | JStr jsstr
  | JArr "json list"
  | JObj "(jsstr \<times> json) list"

text \<open>Truthiness, as \<^verbatim>\<open>if (v)\<close>, \<^verbatim>\<open>v || d\<close> and \<^verbatim>\<open>!v\<close> read it.\<close>

fun truthy :: "json \<Rightarrow> bool" where
  "truthy JUndef = False"
| "truthy JNull = False"
| "truthy (JBool b) = b"
| "truthy (JNum (Fin n)) = (n \<noteq> 0)"
| "truthy (JNum NaN) = False"
| "truthy (JNum PosInf) = True"
| "truthy (JNum NegInf) = True"
| "truthy (JStr s) = (s \<noteq> [])"
| "truthy (JArr vs) = True"
| "truthy (JObj kvs) = True"

definition or_else :: "json \<Rightarrow> json \<Rightarrow> json" where
  "or_else v d = (if truthy v then v else d)"

text \<open>
  Property access \<^verbatim>\<open>v?.k\<close> for the keys the program reads: an own property of an
  object, \<^verbatim>\<open>undefined\<close> on everything else.
\<close>

fun get :: "string \<Rightarrow> json \<Rightarrow> json" where
  "get k (JObj kvs) = (case map_of kvs (str k) of Some v \<Rightarrow> v | None \<Rightarrow> JUndef)"
| "get k v = JUndef"

subsection \<open>Whitespace and trimming\<close>

fun in_ranges :: "(nat \<times> nat) list \<Rightarrow> nat \<Rightarrow> bool" where
  "in_ranges [] c = False"
| "in_ranges ((lo, hi) # rs) c = ((lo \<le> c \<and> c \<le> hi) \<or> in_ranges rs c)"

text \<open>The code units of \<^verbatim>\<open>\s\<close>, which are also the ones \<^verbatim>\<open>trim()\<close> strips.\<close>

definition ws_ranges :: "(nat \<times> nat) list" where
  "ws_ranges = [(9, 13), (32, 32), (160, 160), (5760, 5760), (8192, 8202), (8232, 8233),
                (8239, 8239), (8287, 8287), (12288, 12288), (65279, 65279)]"

definition is_ws :: "nat \<Rightarrow> bool" where
  "is_ws c = in_ranges ws_ranges c"

definition trim :: "jsstr \<Rightarrow> jsstr" where
  "trim s = rev (dropWhile is_ws (rev (dropWhile is_ws s)))"

definition toLowerCase :: "jsstr \<Rightarrow> jsstr" where
  "toLowerCase s = map (\<lambda>c. if 65 \<le> c \<and> c \<le> 90 then c + 32 else c) s"

subsection \<open>String(v) and Number(v)\<close>

fun digits :: "nat \<Rightarrow> jsstr" where
  "digits n = (if n < 10 then [48 + n] else digits (n div 10) @ [48 + n mod 10])"

definition num_to_str :: "jsnum \<Rightarrow> jsstr" where
  "num_to_str n = (case n of
       Fin i \<Rightarrow> (if i < 0 then 45 # digits (nat (- i)) else digits (nat i))
     | NaN \<Rightarrow> str ''NaN''
     | PosInf \<Rightarrow> str ''Infinity''
     | NegInf \<Rightarrow> str ''-Infinity'')"

fun join_comma :: "jsstr list \<Rightarrow> jsstr" where
  "join_comma [] = []"
| "join_comma [x] = x"
| "join_comma (x # y # ys) = x @ 44 # join_comma (y # ys)"

fun to_str :: "json \<Rightarrow> jsstr" where
  "to_str JUndef = str ''undefined''"
| "to_str JNull = str ''null''"
| "to_str (JBool b) = (if b then str ''true'' else str ''false'')"
| "to_str (JNum n) = num_to_str n"
| "to_str (JStr s) = s"
| "to_str (JArr vs) = join_comma (map (\<lambda>v. if v = JUndef \<or> v = JNull then [] else to_str v) vs)"
| "to_str (JObj kvs) = str ''[object Object]''"

definition is_digit :: "nat \<Rightarrow> bool" where
  "is_digit c = (48 \<le> c \<and> c \<le> 57)"

definition dec_value :: "jsstr \<Rightarrow> nat" where
  "dec_value s = foldl (\<lambda>a c. 10 * a + (c - 48)) 0 s"

text \<open>
  \<^verbatim>\<open>Number\<close> of a string: the text is trimmed; the empty text is 0; a prefix \<^verbatim>\<open>0x\<close>,
  \<^verbatim>\<open>0o\<close> or \<^verbatim>\<open>0b\<close> announces digits of that base; otherwise the text is an optional
  sign and \<^verbatim>\<open>Infinity\<close>, or digits with an optional fraction and an optional
  exponent. Numbers are integers here and are kept exactly: a text whose value is
  not an integer (\<^verbatim>\<open>1.5\<close>) has no value that the model could hold, and \<open>NaN\<close> stands for
  it; a value that no double can hold is an infinity, as it is for the platform.
\<close>

definition in_double :: "int \<Rightarrow> jsnum" where
  "in_double v = (if 2 ^ 1024 - 2 ^ 970 \<le> v then PosInf
                  else if v \<le> - (2 ^ 1024 - 2 ^ 970) then NegInf else Fin v)"

definition negate :: "jsnum \<Rightarrow> jsnum" where
  "negate n = (case n of Fin i \<Rightarrow> Fin (- i) | PosInf \<Rightarrow> NegInf | NegInf \<Rightarrow> PosInf | NaN \<Rightarrow> NaN)"

definition digit_value :: "nat \<Rightarrow> nat" where
  "digit_value c = (if 48 \<le> c \<and> c \<le> 57 then c - 48
                    else if 97 \<le> c \<and> c \<le> 102 then c - 87
                    else if 65 \<le> c \<and> c \<le> 70 then c - 55 else 16)"

definition radix_value :: "nat \<Rightarrow> jsstr \<Rightarrow> jsnum" where
  "radix_value b ds =
     (if ds \<noteq> [] \<and> list_all (\<lambda>c. digit_value c < b) ds
      then in_double (int (foldl (\<lambda>a c. b * a + digit_value c) 0 ds)) else NaN)"

text \<open>The exponent part that may end a decimal literal: \<^verbatim>\<open>e\<close> or \<^verbatim>\<open>E\<close>, a sign, digits.\<close>

definition exponent_of :: "jsstr \<Rightarrow> int option" where
  "exponent_of r =
     (if r = [] then Some 0
      else if hd r = 101 \<or> hd r = 69 then
        (let x = tl r;
             minus = (x \<noteq> [] \<and> hd x = 45);
             ds = (if x \<noteq> [] \<and> (hd x = 43 \<or> hd x = 45) then tl x else x)
         in if ds \<noteq> [] \<and> list_all is_digit ds
            then Some ((if minus then - 1 else 1) * int (dec_value ds)) else None)
      else None)"

definition decimal_value :: "jsstr \<Rightarrow> jsnum" where
  "decimal_value u =
     (let d1 = takeWhile is_digit u;
          r1 = dropWhile is_digit u;
          dot = (r1 \<noteq> [] \<and> hd r1 = 46);
          d2 = (if dot then takeWhile is_digit (tl r1) else []);
          r2 = (if dot then dropWhile is_digit (tl r1) else r1)
      in if d1 = [] \<and> d2 = [] then NaN
         else case exponent_of r2 of
                None \<Rightarrow> NaN
              | Some e \<Rightarrow>
                  let m = int (dec_value (d1 @ d2));
                      k = e - int (length d2)
                  in if m = 0 then Fin 0
                     else if 0 \<le> k then in_double (m * 10 ^ nat k)
                     else if m mod 10 ^ nat (- k) = 0 then in_double (m div 10 ^ nat (- k))
                     else NaN)"

definition str_to_num :: "jsstr \<Rightarrow> jsnum" where
  "str_to_num s0 = (let s = trim s0 in
     if s = [] then Fin 0
     else if 2 < length s \<and> hd s = 48 \<and> (s ! 1 = 120 \<or> s ! 1 = 88) then radix_value 16 (drop 2 s)
     else if 2 < length s \<and> hd s = 48 \<and> (s ! 1 = 111 \<or> s ! 1 = 79) then radix_value 8 (drop 2 s)
     else if 2 < length s \<and> hd s = 48 \<and> (s ! 1 = 98 \<or> s ! 1 = 66) then radix_value 2 (drop 2 s)
     else let u = (if hd s = 43 \<or> hd s = 45 then tl s else s);
              n = (if u = str ''Infinity'' then PosInf else decimal_value u)
          in if hd s = 45 then negate n else n)"

definition to_num :: "json \<Rightarrow> jsnum" where
  "to_num v = (case v of
       JUndef \<Rightarrow> NaN
     | JNull \<Rightarrow> Fin 0
     | JBool b \<Rightarrow> Fin (if b then 1 else 0)
     | JNum n \<Rightarrow> n
     | JStr s \<Rightarrow> str_to_num s
     | JArr vs \<Rightarrow> str_to_num (to_str v)
     | JObj kvs \<Rightarrow> NaN)"

section \<open>Regular expressions\<close>

text \<open>
  The patterns of \<^verbatim>\<open>server.js\<close> use literals, character classes, grouping,
  alternation, greedy and lazy quantifiers, \<^verbatim>\<open>^\<close>, \<^verbatim>\<open>$\<close>, \<^verbatim>\<open>\b\<close> and one
  capture group whose text a replacement function reads. A class is a list of
  code-unit ranges with a negation flag.
\<close>

datatype re =
    RLit jsstr
  | RCls bool "(nat \<times> nat) list"
  | RSeq re re
  | RAlt re re
  | RRep nat "nat option" bool re
  | RBol
  | REol
  | RWordB
  | RCap re

text \<open>
  With the \<^verbatim>\<open>i\<close> flag a character matches a class when it or its ASCII case
  counterpart is in the class: no pattern of the program holds a cased character
  beyond ASCII.
\<close>

definition other_case :: "nat \<Rightarrow> nat" where
  "other_case c = (if 65 \<le> c \<and> c \<le> 90 then c + 32 else if 97 \<le> c \<and> c \<le> 122 then c - 32 else c)"

definition cls_match :: "bool \<Rightarrow> bool \<Rightarrow> (nat \<times> nat) list \<Rightarrow> nat \<Rightarrow> bool" where
  "cls_match ic neg rs c = ((in_ranges rs c \<or> (ic \<and> in_ranges rs (other_case c))) \<noteq> neg)"

definition is_word :: "nat \<Rightarrow> bool" where
  "is_word c = in_ranges [(48, 57), (65, 90), (95, 95), (97, 122)] c"

text \<open>
  A matcher state is the position, the code unit before it, the rest of the
  subject and the text of the capture group. \<open>ms ic r st\<close> lists the states in
  which \<open>r\<close> can end from \<open>st\<close>, in the order the backtracking matcher tries them:
  the head of the list is the match JavaScript reports.
\<close>

type_synonym mstate = "nat \<times> nat option \<times> jsstr \<times> jsstr option"

fun lit_match :: "bool \<Rightarrow> jsstr \<Rightarrow> mstate \<Rightarrow> mstate list" where
  "lit_match ic [] (p, pv, ds, cap) = [(p, pv, ds, cap)]"
| "lit_match ic (c # cs) (p, pv, [], cap) = []"
| "lit_match ic (c # cs) (p, pv, d # ds, cap) =
     (if cls_match ic False [(c, c)] d then lit_match ic cs (Suc p, Some d, ds, cap) else [])"

text \<open>
  The quantifier \<open>{mn,mx}\<close> (\<open>mx = None\<close>: unbounded; \<open>g\<close>: greedy). Once the
  minimum is reached an iteration that consumes nothing is rejected, so at most
  \<open>length rest + mn\<close> iterations run: the first argument counts them down from
  one more than that.
\<close>

fun rep :: "nat \<Rightarrow> (mstate \<Rightarrow> mstate list) \<Rightarrow> nat \<Rightarrow> nat option \<Rightarrow> bool \<Rightarrow> mstate \<Rightarrow> mstate list" where
  "rep 0 f mn mx g (p, pv, cs, cap) = (if mn = 0 then [(p, pv, cs, cap)] else [])"
| "rep (Suc k) f mn mx g (p, pv, cs, cap) =
     (if mx = Some 0 then [(p, pv, cs, cap)]
      else let more = concat (map (\<lambda>st'. if mn = 0 \<and> fst st' = p then []
                                        else rep k f (mn - 1) (map_option (\<lambda>m. m - 1) mx) g st')
                                  (f (p, pv, cs, cap)))
           in if 0 < mn then more
              else if g then more @ [(p, pv, cs, cap)]
              else (p, pv, cs, cap) # more)"

fun ms :: "bool \<Rightarrow> re \<Rightarrow> mstate \<Rightarrow> mstate list" where
  "ms ic (RLit cs) (p, pv, ds, cap) = lit_match ic cs (p, pv, ds, cap)"
| "ms ic (RCls neg rs) (p, pv, [], cap) = []"
| "ms ic (RCls neg rs) (p, pv, c # cs, cap) =
     (if cls_match ic neg rs c then [(Suc p, Some c, cs, cap)] else [])"
| "ms ic (RSeq r1 r2) (p, pv, cs, cap) = concat (map (ms ic r2) (ms ic r1 (p, pv, cs, cap)))"
| "ms ic (RAlt r1 r2) (p, pv, cs, cap) = ms ic r1 (p, pv, cs, cap) @ ms ic r2 (p, pv, cs, cap)"
| "ms ic (RRep mn mx g r) (p, pv, cs, cap) =
     rep (length cs + mn + 1) (ms ic r) mn mx g (p, pv, cs, cap)"
| "ms ic RBol (p, pv, cs, cap) = (if p = 0 then [(p, pv, cs, cap)] else [])"
| "ms ic REol (p, pv, cs, cap) = (if cs = [] then [(p, pv, cs, cap)] else [])"
| "ms ic RWordB (p, pv, cs, cap) =
     (if (case pv of None \<Rightarrow> False | Some c \<Rightarrow> is_word c)
         \<noteq> (case cs of [] \<Rightarrow> False | c # _ \<Rightarrow> is_word c)
      then [(p, pv, cs, cap)] else [])"
| "ms ic (RCap r) (p, pv, cs, cap) =
     map (\<lambda>(p', pv', cs', _). (p', pv', cs', Some (take (p' - p) cs))) (ms ic r (p, pv, cs, cap))"

text \<open>
  \<^verbatim>\<open>s.replace(re, f)\<close> with the \<^verbatim>\<open>g\<close> flag: every match from left to right, the
  next search starting where the last match ended (one further on after an empty
  match). \<open>skip\<close> counts the code units of the current match still to pass.
\<close>

fun replace_g :: "bool \<Rightarrow> re \<Rightarrow> (jsstr \<Rightarrow> jsstr option \<Rightarrow> jsstr) \<Rightarrow> nat \<Rightarrow> nat \<Rightarrow> nat option \<Rightarrow> jsstr \<Rightarrow> jsstr" where
  "replace_g ic r f skip p pv [] =
     (if skip = 0
      then (case ms ic r (p, pv, [], None) of [] \<Rightarrow> [] | (p', _, _, cap) # _ \<Rightarrow> f [] cap)
      else [])"
| "replace_g ic r f skip p pv (c # cs) =
     (if 0 < skip then replace_g ic r f (skip - 1) (Suc p) (Some c) cs
      else case ms ic r (p, pv, c # cs, None) of
             [] \<Rightarrow> c # replace_g ic r f 0 (Suc p) (Some c) cs
           | (p', _, _, cap) # _ \<Rightarrow>
               if p' = p then f [] cap @ c # replace_g ic r f 0 (Suc p) (Some c) cs
               else f (take (p' - p) (c # cs)) cap @ replace_g ic r f (p' - p - 1) (Suc p) (Some c) cs)"

definition replace_all :: "bool \<Rightarrow> re \<Rightarrow> (jsstr \<Rightarrow> jsstr option \<Rightarrow> jsstr) \<Rightarrow> jsstr \<Rightarrow> jsstr" where
  "replace_all ic r f s = replace_g ic r f 0 0 None s"

text \<open>Without the \<^verbatim>\<open>g\<close> flag only the leftmost match is replaced.\<close>

fun replace_1 :: "bool \<Rightarrow> re \<Rightarrow> (jsstr \<Rightarrow> jsstr option \<Rightarrow> jsstr) \<Rightarrow> nat \<Rightarrow> nat option \<Rightarrow> jsstr \<Rightarrow> jsstr" where
  "replace_1 ic r f p pv [] =
     (case ms ic r (p, pv, [], None) of [] \<Rightarrow> [] | (p', _, _, cap) # _ \<Rightarrow> f [] cap)"
| "replace_1 ic r f p pv (c # cs) =
     (case ms ic r (p, pv, c # cs, None) of
        [] \<Rightarrow> c # replace_1 ic r f (Suc p) (Some c) cs
      | (p', _, _, cap) # _ \<Rightarrow> f (take (p' - p) (c # cs)) cap @ drop (p' - p) (c # cs))"

definition replace_first :: "bool \<Rightarrow> re \<Rightarrow> (jsstr \<Rightarrow> jsstr option \<Rightarrow> jsstr) \<Rightarrow> jsstr \<Rightarrow> jsstr" where
  "replace_first ic r f s = replace_1 ic r f 0 None s"

text \<open>\<^verbatim>\<open>s.search(re)\<close>: the index of the leftmost match; \<^verbatim>\<open>re.test(s)\<close>: whether there is one.\<close>

fun search_from :: "bool \<Rightarrow> re \<Rightarrow> nat \<Rightarrow> nat option \<Rightarrow> jsstr \<Rightarrow> nat option" where
  "search_from ic r p pv [] = (if ms ic r (p, pv, [], None) = [] then None else Some p)"
| "search_from ic r p pv (c # cs) =
     (if ms ic r (p, pv, c # cs, None) = [] then search_from ic r (Suc p) (Some c) cs else Some p)"

definition re_test :: "bool \<Rightarrow> re \<Rightarrow> jsstr \<Rightarrow> bool" where
  "re_test ic r s = (search_from ic r 0 None s \<noteq> None)"

text \<open>The first capture group of the leftmost match, as \<^verbatim>\<open>s.match(re)[1]\<close>.\<close>

fun match_group :: "bool \<Rightarrow> re \<Rightarrow> nat \<Rightarrow> nat option \<Rightarrow> jsstr \<Rightarrow> jsstr option" where
  "match_group ic r p pv [] =
     (case ms ic r (p, pv, [], None) of [] \<Rightarrow> None | (_, _, _, cap) # _ \<Rightarrow> cap)"
| "match_group ic r p pv (c # cs) =
     (case ms ic r (p, pv, c # cs, None) of
        [] \<Rightarrow> match_group ic r (Suc p) (Some c) cs
      | (_, _, _, cap) # _ \<Rightarrow> cap)"

text \<open>\<^verbatim>\<open>s.indexOf(t)\<close> and \<^verbatim>\<open>s.includes(t)\<close>.\<close>

fun index_from :: "nat \<Rightarrow> jsstr \<Rightarrow> jsstr \<Rightarrow> nat option" where
  "index_from p t [] = (if t = [] then Some p else None)"
| "index_from p t (c # cs) = (if take (length t) (c # cs) = t then Some p else index_from (Suc p) t cs)"

definition indexOf :: "jsstr \<Rightarrow> jsstr \<Rightarrow> nat option" where
  "indexOf s t = index_from 0 t s"

definition str_includes :: "jsstr \<Rightarrow> jsstr \<Rightarrow> bool" where
  "str_includes s t = (indexOf s t \<noteq> None)"

subsection \<open>Notation for patterns\<close>

definition rg :: "char \<Rightarrow> char \<Rightarrow> nat \<times> nat" where
  "rg a b = (of_char a, of_char b)"

definition cset :: "string \<Rightarrow> (nat \<times> nat) list" where
  "cset s = map (\<lambda>c. (of_char c, of_char c)) s"

definition lit :: "string \<Rightarrow> re" where
  "lit s = RLit (str s)"

definition star :: "re \<Rightarrow> re" where
  "star r = RRep 0 None True r"

definition lazy_star :: "re \<Rightarrow> re" where
  "lazy_star r = RRep 0 None False r"

definition plus :: "re \<Rightarrow> re" where
  "plus r = RRep 1 None True r"

definition opt :: "re \<Rightarrow> re" where
  "opt r = RRep 0 (Some 1) True r"

definition at_least :: "nat \<Rightarrow> re \<Rightarrow> re" where
  "at_least n r = RRep n None True r"

definition exactly :: "nat \<Rightarrow> re \<Rightarrow> re" where
  "exactly n r = RRep n (Some n) True r"

fun seqs :: "re list \<Rightarrow> re" where
  "seqs [] = RLit []"
| "seqs [r] = r"
| "seqs (r # rs) = RSeq r (seqs rs)"

fun alts :: "re list \<Rightarrow> re" where
  "alts [] = RCls False []"
| "alts [r] = r"
| "alts (r # rs) = RAlt r (alts rs)"

definition space :: re where
  "space = RCls False ws_ranges"

definition digit :: re where
  "digit = RCls False [(48, 57)]"

definition any_char :: re where
  "any_char = RCls True []"

definition not_bracket :: re where
  "not_bracket = RCls True (cset '']'')"

text \<open>\<^verbatim>\<open>[A-Za-z0-9_]\<close>, \<^verbatim>\<open>[A-Za-z0-9_-]\<close> and the quotes \<^verbatim>\<open>["']\<close>.\<close>

definition word_ranges :: "(nat \<times> nat) list" where
  "word_ranges = [rg CHR ''A'' CHR ''Z'', rg CHR ''a'' CHR ''z'', rg CHR ''0'' CHR ''9'', (95, 95)]"

definition quote :: re where
  "quote = RCls False [(34, 34), (39, 39)]"


section \<open>Redaction\<close>

text \<open>
  \<^verbatim>\<open>SENSITIVE_KEY_RE\<close>:
  \<^verbatim>\<open>/(api[-_]?key|token|secret|password|authorization|auth|cookie|client[_-]?id|client[_-]?secret)/i\<close>.
  A capture group whose text nothing reads is a plain group.
\<close>

definition us_dash :: re where
  "us_dash = RCls False (cset ''_-'')"

definition SENSITIVE_KEY_RE :: re where
  "SENSITIVE_KEY_RE = alts [
     seqs [lit ''api'', opt (RCls False (cset ''-_'')), lit ''key''],
     lit ''token'', lit ''secret'', lit ''password'', lit ''authorization'', lit ''auth'',
     lit ''cookie'',
     seqs [lit ''client'', opt us_dash, lit ''id''],
     seqs [lit ''client'', opt us_dash, lit ''secret'']]"

text \<open>
  \<^verbatim>\<open>SENSITIVE_INLINE_RE\<close>, each pattern with its \<^verbatim>\<open>i\<close> flag:
  \<^verbatim>\<open>/(sk-[A-Za-z0-9_-]{10,})/g\<close>,
  \<^verbatim>\<open>/([A-Za-z0-9_]{20,}\.[A-Za-z0-9_]{10,}\.[A-Za-z0-9_-]{10,})/g\<close>,
  \<^verbatim>\<open>/\bGOCSPX-[A-Za-z0-9_-]{10,}\b/g\<close>,
  \<^verbatim>\<open>/\bAIza[0-9A-Za-z_-]{10,}\b/g\<close>,
  \<^verbatim>\<open>/\b\d{12,}-[a-z0-9]{10,}\.apps\.googleusercontent\.com\b/gi\<close>.
\<close>

definition word_dash :: re where
  "word_dash = RCls False (word_ranges @ cset ''-'')"

definition SENSITIVE_INLINE_RE :: "(bool \<times> re) list" where
  "SENSITIVE_INLINE_RE = [
     (False, seqs [lit ''sk-'', at_least 10 word_dash]),
     (False, seqs [at_least 20 (RCls False word_ranges), lit ''.'',
                   at_least 10 (RCls False word_ranges), lit ''.'', at_least 10 word_dash]),
     (False, seqs [RWordB, lit ''GOCSPX-'', at_least 10 word_dash, RWordB]),
     (False, seqs [RWordB, lit ''AIza'', at_least 10 word_dash, RWordB]),
     (True, seqs [RWordB, at_least 12 digit, lit ''-'',
                  at_least 10 (RCls False [rg CHR ''a'' CHR ''z'', rg CHR ''0'' CHR ''9'']),
                  lit ''.apps.googleusercontent.com'', RWordB])]"

text \<open>
  The first substitution of \<^verbatim>\<open>redactInline\<close>:
  \<^verbatim>\<open>/\b(client[_-]?id|client[_-]?secret|oauth[_-]?client[_-]?(?:id|secret))\b\s*[:=]\s*["']?([^\s,"';]+)["']?/gi\<close>,
  whose first group is the key the replacement keeps.
\<close>

definition CLIENT_KV_RE :: re where
  "CLIENT_KV_RE = seqs [
     RWordB,
     RCap (alts [seqs [lit ''client'', opt us_dash, lit ''id''],
                 seqs [lit ''client'', opt us_dash, lit ''secret''],
                 seqs [lit ''oauth'', opt us_dash, lit ''client'', opt us_dash,
                       alts [lit ''id'', lit ''secret'']]]),
     RWordB, star space, RCls False (cset '':=''), star space, opt quote,
     plus (RCls True (ws_ranges @ cset '','' @ [(34, 34), (39, 39)] @ cset '';'')),
     opt quote]"

definition REDACTED :: jsstr where
  "REDACTED = str ''[REDACTED]''"

definition maskSecret :: "json \<Rightarrow> jsstr" where
  "maskSecret v = (case v of
       JStr s \<Rightarrow> (if length s \<le> 8 then REDACTED
                  else take 3 s @ str ''***'' @ drop (length s - 3) s)
     | _ \<Rightarrow> REDACTED)"

fun redactObject :: "json \<Rightarrow> json" where
  "redactObject (JArr vs) = JArr (map redactObject vs)"
| "redactObject (JObj kvs) =
     JObj (map (\<lambda>(k, v). (k, if re_test True SENSITIVE_KEY_RE k
                               then JStr (maskSecret (JStr (to_str v)))
                               else redactObject v)) kvs)"
| "redactObject v = v"

definition redactInline :: "json \<Rightarrow> jsstr" where
  "redactInline text =
     (let output = to_str (or_else text (JStr []));
          output = replace_all True CLIENT_KV_RE
                     (\<lambda>_ key. (case key of Some k \<Rightarrow> k | None \<Rightarrow> str ''undefined'') @ str '': [REDACTED]'')
                     output
      in foldl (\<lambda>out (ic, pattern). replace_all ic pattern (\<lambda>_ _. REDACTED) out)
               output SENSITIVE_INLINE_RE)"

section \<open>The query-text normalizer\<close>

text \<open>\<^verbatim>\<open>/<image>[\s\S]*?<\/image>/gi\<close> and \<^verbatim>\<open>/!\[[^\]]*]\([^)]*\)/g\<close>.\<close>

definition IMAGE_RE :: re where
  "IMAGE_RE = seqs [lit ''<image>'', lazy_star any_char, lit ''</image>'']"

definition MD_IMAGE_RE :: re where
  "MD_IMAGE_RE = seqs [lit ''!['', star not_bracket, lit '']('', star (RCls True (cset '')'')), lit '')'']"

text \<open>
  \<^verbatim>\<open>stripMetadataCodeFence\<close>: \<^verbatim>\<open>/```(?:json|yaml|yml|txt|text)?\s*([\s\S]*?)```/gi\<close>,
  and the probe
  \<^verbatim>\<open>/conversation[_\s-]*label|conversation info|untrusted metadata|channel|session[_\s-]*id|timestamp|gmt[+-]?\d+/i\<close>
  on the lower-cased body.
\<close>

definition us_space_dash :: re where
  "us_space_dash = RCls False (cset ''_'' @ ws_ranges @ cset ''-'')"

definition sign :: re where
  "sign = RCls False (cset ''+-'')"

definition FENCE_RE :: re where
  "FENCE_RE = seqs [RLit [96, 96, 96],
     opt (alts [lit ''json'', lit ''yaml'', lit ''yml'', lit ''txt'', lit ''text'']),
     star space, RCap (lazy_star any_char), RLit [96, 96, 96]]"

definition FENCE_PROBE_RE :: re where
  "FENCE_PROBE_RE = alts [
     seqs [lit ''conversation'', star us_space_dash, lit ''label''],
     lit ''conversation info'', lit ''untrusted metadata'', lit ''channel'',
     seqs [lit ''session'', star us_space_dash, lit ''id''],
     lit ''timestamp'',
     seqs [lit ''gmt'', opt sign, plus digit]]"

definition stripMetadataCodeFence :: "jsstr \<Rightarrow> jsstr" where
  "stripMetadataCodeFence text =
     replace_all True FENCE_RE
       (\<lambda>block body. if re_test True FENCE_PROBE_RE (toLowerCase (case body of Some b \<Rightarrow> b | None \<Rightarrow> []))
                      then str '' '' else block)
       text"

text \<open>
  The chain of substitutions, in the order of the source:
  \<^verbatim>\<open>/conversation info\s*\(untrusted metadata\)\s*:?\s*/gi\<close>,
  \<^verbatim>\<open>/(?:^|\s)untrusted metadata\s*:?\s*/gi\<close>,
  \<^verbatim>\<open>/^\[[^\]]*(?:cron|schedule|metadata|session|channel|..|....)[^\]]*\]\s*/i\<close> (the last
  two alternatives are the words U+65E5 U+62A5 and U+5B9A U+65F6 U+4EFB U+52A1),
  \<^verbatim>\<open>/\[[A-Za-z]{3}\s+\d{4}-\d{2}-\d{2}[^\]]*GMT[+-]?\d+[^\]]*\]/g\<close>,
  \<^verbatim>\<open>/\bCurrent time:\s*[^..!?]+(?:[..!?]|$)/gi\<close> (the first class member is U+3002),
  \<^verbatim>\<open>/\bReturn your summary as plain text[\s\S]*$/i\<close>,
  \<^verbatim>\<open>/\bIf the task explicitly calls for messaging[\s\S]*$/i\<close>,
  \<^verbatim>\<open>/^[\s\]\)]*\d{1,2}:\d{2}\s*....\s*[-::]\s*/i\<close> (the word U+5B9A U+65F6 U+4EFB U+52A1;
  the last class member is U+FF1A),
  \<^verbatim>\<open>/["'`]?conversation[_\s-]*label["'`]?[\s:=-]+[A-Za-z0-9._/-]+/gi\<close>,
  \<^verbatim>\<open>/\s+/g\<close>.
\<close>

definition CONV_INFO_RE :: re where
  "CONV_INFO_RE = seqs [lit ''conversation info'', star space, lit ''(untrusted metadata)'',
     star space, opt (lit '':''), star space]"

definition UNTRUSTED_RE :: re where
  "UNTRUSTED_RE = seqs [alts [RBol, space], lit ''untrusted metadata'', star space,
     opt (lit '':''), star space]"

definition ri_bao :: jsstr where
  "ri_bao = [26085, 25253]"

definition dingshi_renwu :: jsstr where
  "dingshi_renwu = [23450, 26102, 20219, 21153]"

definition BRACKET_TAG_RE :: re where
  "BRACKET_TAG_RE = seqs [RBol, lit ''['', star not_bracket,
     alts [lit ''cron'', lit ''schedule'', lit ''metadata'', lit ''session'', lit ''channel'',
           RLit ri_bao, RLit dingshi_renwu],
     star not_bracket, lit '']'', star space]"

definition letter :: re where
  "letter = RCls False [rg CHR ''A'' CHR ''Z'', rg CHR ''a'' CHR ''z'']"

definition iso_date :: re where
  "iso_date = seqs [exactly 4 digit, lit ''-'', exactly 2 digit, lit ''-'', exactly 2 digit]"

definition TIMESTAMP_TAG_RE :: re where
  "TIMESTAMP_TAG_RE = seqs [lit ''['', exactly 3 letter, plus space, iso_date,
     star not_bracket, lit ''GMT'', opt sign, plus digit, star not_bracket, lit '']'']"

definition sentence_end :: "(nat \<times> nat) list" where
  "sentence_end = (12290, 12290) # cset ''.!?''"

definition CURRENT_TIME_RE :: re where
  "CURRENT_TIME_RE = seqs [RWordB, lit ''Current time:'', star space,
     plus (RCls True sentence_end), alts [RCls False sentence_end, REol]]"

definition RETURN_SUMMARY_RE :: re where
  "RETURN_SUMMARY_RE = seqs [RWordB, lit ''Return your summary as plain text'', star any_char, REol]"

definition IF_TASK_RE :: re where
  "IF_TASK_RE = seqs [RWordB, lit ''If the task explicitly calls for messaging'', star any_char, REol]"

definition CRON_TIME_RE :: re where
  "CRON_TIME_RE = seqs [RBol, star (RCls False (ws_ranges @ cset ''])'')),
     RRep 1 (Some 2) True digit, lit '':'', exactly 2 digit, star space, RLit dingshi_renwu,
     star space, RCls False (cset ''-:'' @ [(65306, 65306)]), star space]"

definition any_quote :: re where
  "any_quote = RCls False [(34, 34), (39, 39), (96, 96)]"

definition CONV_LABEL_RE :: re where
  "CONV_LABEL_RE = seqs [opt any_quote, lit ''conversation'', star us_space_dash, lit ''label'',
     opt any_quote, plus (RCls False (ws_ranges @ cset '':=-'')),
     plus (RCls False ([rg CHR ''A'' CHR ''Z'', rg CHR ''a'' CHR ''z'', rg CHR ''0'' CHR ''9'']
                       @ cset ''._/-''))]"

definition SPACES_RE :: re where
  "SPACES_RE = plus space"

text \<open>
  \<^verbatim>\<open>leadingNoiseRe\<close>:
  \<^verbatim>\<open>/^(?:[\s,;|:]+|(?:conversation[_\s-]*label|conversation info|untrusted metadata|channel|source|date|time|timestamp|session(?:_id| id)?|openclaw-tui)\s*[:=\-]\s*)+/i\<close>.
\<close>

definition LEADING_NOISE_RE :: re where
  "LEADING_NOISE_RE = seqs [RBol,
     plus (alts [
       plus (RCls False (ws_ranges @ cset '',;|:'')),
       seqs [alts [seqs [lit ''conversation'', star us_space_dash, lit ''label''],
                   lit ''conversation info'', lit ''untrusted metadata'', lit ''channel'',
                   lit ''source'', lit ''date'', lit ''time'', lit ''timestamp'',
                   seqs [lit ''session'', opt (alts [lit ''_id'', lit '' id''])],
                   lit ''openclaw-tui''],
             star space, RCls False (cset '':=-''), star space]])]"

text \<open>
  The two prefix probes:
  \<^verbatim>\<open>/conversation|metadata|openclaw-tui|gmt|session|\[[^\]]*$/i\<close> and
  \<^verbatim>\<open>/conversation|metadata|openclaw-tui|gmt|session|[A-Za-z]{3}\s+\d{4}-\d{2}-\d{2}/i\<close>.
\<close>

definition AGREE_PREFIX_RE :: re where
  "AGREE_PREFIX_RE = alts [lit ''conversation'', lit ''metadata'', lit ''openclaw-tui'', lit ''gmt'',
     lit ''session'', seqs [lit ''['', star not_bracket, REol]]"

definition HAN_PREFIX_RE :: re where
  "HAN_PREFIX_RE = alts [lit ''conversation'', lit ''metadata'', lit ''openclaw-tui'', lit ''gmt'',
     lit ''session'', seqs [exactly 3 letter, plus space, iso_date]]"

text \<open>
  \<^verbatim>\<open>compact.search(/[\p{Script=Han}]/u)\<close>. With the \<^verbatim>\<open>u\<close> flag the subject is read by
  code points, a surrogate pair being one. The ranges of the Han script are a table
  of the Unicode standard, not of the repository.
\<close>

definition han_ranges :: "(nat \<times> nat) list" where
  "han_ranges = [(0x2E80, 0x2E99), (0x2E9B, 0x2EF3), (0x2F00, 0x2FD5), (0x3005, 0x3005),
     (0x3007, 0x3007), (0x3021, 0x3029), (0x3038, 0x303B), (0x3400, 0x4DBF), (0x4E00, 0x9FFF),
     (0xF900, 0xFA6D), (0xFA70, 0xFAD9), (0x16FE2, 0x16FE3), (0x16FF0, 0x16FF1),
     (0x20000, 0x2A6DF), (0x2A700, 0x2B739), (0x2B740, 0x2B81D), (0x2B820, 0x2CEA1),
     (0x2CEB0, 0x2EBE0), (0x2EBF0, 0x2EE5D), (0x2F800, 0x2FA1D), (0x30000, 0x3134A),
     (0x31350, 0x323AF)]"

fun search_han :: "nat \<Rightarrow> jsstr \<Rightarrow> nat option" where
  "search_han p [] = None"
| "search_han p [c] = (if in_ranges han_ranges c then Some p else None)"
| "search_han p (c # d # cs) =
     (if 0xD800 \<le> c \<and> c \<le> 0xDBFF \<and> 0xDC00 \<le> d \<and> d \<le> 0xDFFF
      then (if in_ranges han_ranges (0x10000 + (c - 0xD800) * 0x400 + (d - 0xDC00))
            then Some p else search_han (p + 2) cs)
      else if in_ranges han_ranges c then Some p
      else search_han (Suc p) (d # cs))"

text \<open>
  The loop \<^verbatim>\<open>while (leadingNoiseRe.test(compact)) compact = compact.replace(leadingNoiseRe, "").trim()\<close>
  ends because every match of the pattern consumes at least one code unit.
\<close>

fun consumes :: "re \<Rightarrow> bool" where
  "consumes (RLit cs) = (cs \<noteq> [])"
| "consumes (RCls neg rs) = True"
| "consumes (RSeq r1 r2) = (consumes r1 \<or> consumes r2)"
| "consumes (RAlt r1 r2) = (consumes r1 \<and> consumes r2)"
| "consumes (RRep mn mx g r) = (0 < mn \<and> mx \<noteq> Some 0 \<and> consumes r)"
| "consumes RBol = False"
| "consumes REol = False"
| "consumes RWordB = False"
| "consumes (RCap r) = consumes r"

definition st_pos :: "mstate \<Rightarrow> nat" where
  "st_pos st = fst st"

definition st_rest :: "mstate \<Rightarrow> jsstr" where
  "st_rest st = fst (snd (snd st))"

definition advances :: "mstate \<Rightarrow> mstate \<Rightarrow> bool" where
  "advances st st' = (st_pos st \<le> st_pos st' \<and>
     st_pos st' + length (st_rest st') = st_pos st + length (st_rest st))"


lemma advances_refl: "advances st st"
  by (simp add: advances_def)

lemma advances_trans: "advances a b \<Longrightarrow> advances b c \<Longrightarrow> advances a c"
  by (auto simp: advances_def)

lemma lit_match_advances: "st' \<in> set (lit_match ic cs st) \<Longrightarrow> advances st st'"
proof (induction ic cs st rule: lit_match.induct)
  case (3 ic c cs p pv d ds cap)
  show ?case
  proof (cases "cls_match ic False [(c, c)] d")
    case True
    with 3 have "advances (Suc p, Some d, ds, cap) st'" by simp
    then show ?thesis by (auto simp: advances_def st_pos_def st_rest_def)
  next
    case False
    with 3 show ?thesis by simp
  qed
qed (auto simp: advances_def)

lemma lit_match_progress:
  "cs \<noteq> [] \<Longrightarrow> st' \<in> set (lit_match ic cs st) \<Longrightarrow> st_pos st < st_pos st'"
proof (cases cs)
  case Nil
  assume "cs \<noteq> []"
  with Nil show ?thesis by simp
next
  case (Cons c cs')
  assume mem: "st' \<in> set (lit_match ic cs st)"
  obtain p pv ds cap where st: "st = (p, pv, ds, cap)" by (cases st) auto
  show ?thesis
  proof (cases ds)
    case Nil
    with mem Cons st show ?thesis by simp
  next
    case (Cons d ds')
    with mem \<open>cs = c # cs'\<close> st
    have "st' \<in> set (lit_match ic cs' (Suc p, Some d, ds', cap))"
      by (simp split: if_splits)
    then have "advances (Suc p, Some d, ds', cap) st'" by (rule lit_match_advances)
    with st show ?thesis by (simp add: advances_def st_pos_def)
  qed
qed

lemma rep_advances:
  assumes f: "\<And>a b. b \<in> set (f a) \<Longrightarrow> advances a b"
  shows "st' \<in> set (rep k f mn mx g st) \<Longrightarrow> advances st st'"
proof (induction k arbitrary: mn mx st)
  case 0
  obtain p pv cs cap where "st = (p, pv, cs, cap)" by (cases st) auto
  with 0 show ?case by (auto simp: advances_refl split: if_splits)
next
  case (Suc k)
  obtain p pv cs cap where st: "st = (p, pv, cs, cap)" by (cases st) auto
  from Suc.prems
  have "st' = st \<or> (\<exists>st1 \<in> set (f st).
          st' \<in> set (rep k f (mn - 1) (map_option (\<lambda>m. m - 1) mx) g st1))"
    unfolding st by (auto simp: Let_def split: if_splits)
  then show ?case
  proof
    assume "st' = st"
    then show ?thesis by (simp add: advances_refl)
  next
    assume "\<exists>st1 \<in> set (f st).
          st' \<in> set (rep k f (mn - 1) (map_option (\<lambda>m. m - 1) mx) g st1)"
    then obtain st1 where "st1 \<in> set (f st)"
      and "st' \<in> set (rep k f (mn - 1) (map_option (\<lambda>m. m - 1) mx) g st1)" by blast
    then have "advances st st1" and "advances st1 st'" using f Suc.IH by blast+
    then show ?thesis by (rule advances_trans)
  qed
qed

lemma ms_advances: "st' \<in> set (ms ic r st) \<Longrightarrow> advances st st'"
proof (induction r arbitrary: st st')
  case (RLit cs)
  obtain p pv ds cap where "st = (p, pv, ds, cap)" by (cases st) auto
  with RLit show ?case by (auto dest: lit_match_advances)
next
  case (RCls neg rs)
  obtain p pv ds cap where st: "st = (p, pv, ds, cap)" by (cases st) auto
  with RCls show ?case
    by (cases ds) (auto simp: advances_def st_pos_def st_rest_def split: if_splits)
next
  case (RSeq r1 r2)
  obtain p pv ds cap where st: "st = (p, pv, ds, cap)" by (cases st) auto
  with RSeq.prems obtain mid where "mid \<in> set (ms ic r1 st)" "st' \<in> set (ms ic r2 mid)"
    by auto
  then show ?case using RSeq.IH advances_trans by blast
next
  case (RAlt r1 r2)
  obtain p pv ds cap where st: "st = (p, pv, ds, cap)" by (cases st) auto
  with RAlt.prems have "st' \<in> set (ms ic r1 st) \<or> st' \<in> set (ms ic r2 st)" by auto
  then show ?case using RAlt.IH by blast
next
  case (RRep mn mx g r)
  obtain p pv ds cap where st: "st = (p, pv, ds, cap)" by (cases st) auto
  with RRep.prems have "st' \<in> set (rep (length ds + mn + 1) (ms ic r) mn mx g st)" by simp
  then show ?case using RRep.IH by (rule rep_advances [rotated])
next
  case RBol
  obtain p pv ds cap where "st = (p, pv, ds, cap)" by (cases st) auto
  with RBol show ?case by (auto simp: advances_refl split: if_splits)
next
  case REol
  obtain p pv ds cap where "st = (p, pv, ds, cap)" by (cases st) auto
  with REol show ?case by (auto simp: advances_refl split: if_splits)
next
  case RWordB
  obtain p pv ds cap where "st = (p, pv, ds, cap)" by (cases st) auto
  with RWordB show ?case by (auto simp: advances_refl split: if_splits)
next
  case (RCap r)
  obtain p pv ds cap where st: "st = (p, pv, ds, cap)" by (cases st) auto
  with RCap.prems obtain p' pv' ds' c' where
    "(p', pv', ds', c') \<in> set (ms ic r st)" "st' = (p', pv', ds', Some (take (p' - p) ds))"
    by auto
  with RCap.IH have "advances st (p', pv', ds', c')" by blast
  with \<open>st' = _\<close> show ?case by (simp add: advances_def st_pos_def st_rest_def)
qed

lemma advances_less: "st_pos a < st_pos b \<Longrightarrow> advances b c \<Longrightarrow> st_pos a < st_pos c"
  by (simp add: advances_def)

lemma advances_less2: "advances a b \<Longrightarrow> st_pos b < st_pos c \<Longrightarrow> st_pos a < st_pos c"
  by (simp add: advances_def)

lemma ms_progress: "consumes r \<Longrightarrow> st' \<in> set (ms ic r st) \<Longrightarrow> st_pos st < st_pos st'"
proof (induction r arbitrary: st st')
  case (RLit cs)
  obtain p pv ds cap where "st = (p, pv, ds, cap)" by (cases st) auto
  with RLit show ?case by (auto dest: lit_match_progress)
next
  case (RCls neg rs)
  obtain p pv ds cap where st: "st = (p, pv, ds, cap)" by (cases st) auto
  with RCls show ?case by (cases ds) (auto simp: st_pos_def split: if_splits)
next
  case (RSeq r1 r2)
  obtain p pv ds cap where st: "st = (p, pv, ds, cap)" by (cases st) auto
  with RSeq.prems obtain mid where mid: "mid \<in> set (ms ic r1 st)" "st' \<in> set (ms ic r2 mid)"
    by auto
  from RSeq.prems have "consumes r1 \<or> consumes r2" by simp
  then show ?case
  proof
    assume "consumes r1"
    with mid RSeq.IH(1) have "st_pos st < st_pos mid" by blast
    with mid(2) show ?thesis by (blast intro: advances_less ms_advances)
  next
    assume "consumes r2"
    with mid RSeq.IH(2) have "st_pos mid < st_pos st'" by blast
    with mid(1) show ?thesis by (blast intro: advances_less2 ms_advances)
  qed
next
  case (RAlt r1 r2)
  obtain p pv ds cap where st: "st = (p, pv, ds, cap)" by (cases st) auto
  with RAlt.prems have "st' \<in> set (ms ic r1 st) \<or> st' \<in> set (ms ic r2 st)" by auto
  moreover from RAlt.prems have "consumes r1" "consumes r2" by simp_all
  ultimately show ?case using RAlt.IH by blast
next
  case (RRep mn mx g r)
  obtain p pv ds cap where st: "st = (p, pv, ds, cap)" by (cases st) auto
  from RRep.prems have c: "0 < mn" "mx \<noteq> Some 0" "consumes r" by simp_all
  from RRep.prems st
  have "st' \<in> set (rep (Suc (length ds + mn)) (ms ic r) mn mx g (p, pv, ds, cap))" by simp
  with c obtain st1 where st1: "st1 \<in> set (ms ic r (p, pv, ds, cap))"
    "st' \<in> set (rep (length ds + mn) (ms ic r) (mn - 1) (map_option (\<lambda>m. m - 1) mx) g st1)"
    by (auto simp: Let_def split: if_splits)
  from st1(1) c(3) RRep.IH st have "st_pos st < st_pos st1" by blast
  moreover from st1(2) have "advances st1 st'"
    by (rule rep_advances [rotated]) (rule ms_advances)
  ultimately show ?case by (rule advances_less)
next
  case (RCap r)
  obtain p pv ds cap where st: "st = (p, pv, ds, cap)" by (cases st) auto
  with RCap.prems obtain p' pv' ds' c' where
    "(p', pv', ds', c') \<in> set (ms ic r st)" "st' = (p', pv', ds', Some (take (p' - p) ds))"
    by auto
  with RCap show ?case by (fastforce simp: st_pos_def)
qed simp_all

lemma replace_1_shorter:
  "consumes r \<Longrightarrow> search_from ic r p pv s \<noteq> None \<Longrightarrow>
   length (replace_1 ic r (\<lambda>_ _. []) p pv s) < length s"
proof (induction s arbitrary: p pv)
  case Nil
  then obtain st' sts where m: "ms ic r (p, pv, [], None) = st' # sts"
    by (cases "ms ic r (p, pv, [], None)") (auto split: if_splits)
  then have mem: "st' \<in> set (ms ic r (p, pv, [], None))" by simp
  from ms_progress [OF Nil.prems(1) mem] ms_advances [OF mem]
  show ?case by (simp add: advances_def st_pos_def st_rest_def)
next
  case (Cons c cs)
  show ?case
  proof (cases "ms ic r (p, pv, c # cs, None)")
    case Nil
    with Cons show ?thesis by simp
  next
    case (Cons st' sts)
    then have mem: "st' \<in> set (ms ic r (p, pv, c # cs, None))" by simp
    obtain p' pv' ds' c' where st': "st' = (p', pv', ds', c')" by (cases st') auto
    from ms_progress [OF Cons.prems(1) mem] st' have "p < p'" by (simp add: st_pos_def)
    with Cons st' show ?thesis by simp
  qed
qed

lemma length_trim_le: "length (trim s) \<le> length s"
proof -
  have "length (trim s) \<le> length (dropWhile is_ws s)"
    unfolding trim_def using length_dropWhile_le [of is_ws "rev (dropWhile is_ws s)"] by simp
  also have "\<dots> \<le> length s" by (rule length_dropWhile_le)
  finally show ?thesis .
qed

lemma consumes_LEADING_NOISE_RE: "consumes LEADING_NOISE_RE"
  by (simp add: LEADING_NOISE_RE_def plus_def star_def opt_def lit_def str_def)

function strip_leading_noise :: "jsstr \<Rightarrow> jsstr" where
  "strip_leading_noise compact =
     (if re_test True LEADING_NOISE_RE compact
      then strip_leading_noise (trim (replace_first True LEADING_NOISE_RE (\<lambda>_ _. []) compact))
      else compact)"
  by pat_completeness auto
termination
proof (relation "measure length")
  show "wf (measure length)" by simp
next
  fix compact
  assume "re_test True LEADING_NOISE_RE compact"
  then have "length (replace_first True LEADING_NOISE_RE (\<lambda>_ _. []) compact) < length compact"
    unfolding re_test_def replace_first_def
    by (rule replace_1_shorter [OF consumes_LEADING_NOISE_RE])
  with length_trim_le [of "replace_first True LEADING_NOISE_RE (\<lambda>_ _. []) compact"]
  show "(trim (replace_first True LEADING_NOISE_RE (\<lambda>_ _. []) compact), compact) \<in> measure length"
    by simp
qed

declare strip_leading_noise.simps [simp del]

definition slice_from :: "nat \<Rightarrow> jsstr \<Rightarrow> jsstr" where
  "slice_from n s = drop n s"

text \<open>
  \<^verbatim>\<open>normalizeQueryText(text, maxChars)\<close>: \<open>None\<close> is the \<^verbatim>\<open>null\<close> it returns when
  nothing is left. The ellipsis is U+2026.
\<close>

definition blank :: "jsstr \<Rightarrow> jsstr option \<Rightarrow> jsstr" where
  "blank m g = str '' ''"

definition cut_agree :: "jsstr \<Rightarrow> jsstr" where
  "cut_agree compact =
     (case indexOf compact [27809, 38169] of
        None \<Rightarrow> compact
      | Some agreeIdx \<Rightarrow>
          if 0 < agreeIdx \<and> re_test True AGREE_PREFIX_RE (take agreeIdx compact)
          then trim (drop agreeIdx compact) else compact)"

definition cut_han :: "jsstr \<Rightarrow> jsstr" where
  "cut_han compact =
     (case search_han 0 compact of
        None \<Rightarrow> compact
      | Some firstHan \<Rightarrow>
          if 0 < firstHan \<and> firstHan < 260 \<and> re_test True HAN_PREFIX_RE (take firstHan compact)
          then trim (drop firstHan compact) else compact)"

definition normalizeQueryText :: "json \<Rightarrow> nat \<Rightarrow> jsstr option" where
  "normalizeQueryText text maxChars =
     (let compact = redactInline (JStr (to_str (or_else text (JStr []))));
          compact = replace_all True IMAGE_RE blank compact;
          compact = replace_all False MD_IMAGE_RE blank compact;
          compact = stripMetadataCodeFence compact;
          compact = replace_all True CONV_INFO_RE blank compact;
          compact = replace_all True UNTRUSTED_RE blank compact;
          compact = replace_first True BRACKET_TAG_RE blank compact;
          compact = replace_all False TIMESTAMP_TAG_RE blank compact;
          compact = replace_all True CURRENT_TIME_RE blank compact;
          compact = replace_first True RETURN_SUMMARY_RE blank compact;
          compact = replace_first True IF_TASK_RE blank compact;
          compact = replace_first True CRON_TIME_RE blank compact;
          compact = replace_all True CONV_LABEL_RE blank compact;
          compact = replace_all False SPACES_RE blank compact;
          compact = trim compact
      in if compact = [] then None
         else let compact = strip_leading_noise compact;
                  compact = cut_agree compact;
                  compact = cut_han compact
              in if compact = [] then None
                 else if length compact \<le> maxChars then Some compact
                 else Some ((if maxChars = 0 then butlast compact else take (maxChars - 1) compact)
                            @ [8230]))"


section \<open>Session records\<close>

text \<open>
  \<^verbatim>\<open>toNumber\<close>, \<^verbatim>\<open>toTimestamp\<close>, \<^verbatim>\<open>normalizeModelName\<close>. \<^verbatim>\<open>Date.parse\<close> is a
  builtin of the platform: \<open>dp\<close> stands for it.
\<close>

definition toNumber :: "json \<Rightarrow> int" where
  "toNumber v = (case to_num (or_else v (JNum (Fin 0))) of Fin n \<Rightarrow> n | _ \<Rightarrow> 0)"

definition toTimestamp :: "(jsstr \<Rightarrow> jsnum) \<Rightarrow> json \<Rightarrow> int \<Rightarrow> int" where
  "toTimestamp dp v fallback =
     (let n = (case v of JNum x \<Rightarrow> x | _ \<Rightarrow> dp (to_str (or_else v (JStr []))))
      in case n of Fin i \<Rightarrow> (if i \<le> 0 then fallback else i) | _ \<Rightarrow> fallback)"

definition Unknown :: jsstr where
  "Unknown = str ''Unknown''"

definition normalizeModelName :: "json \<Rightarrow> jsstr" where
  "normalizeModelName m =
     (let v = trim (to_str (or_else m (JStr []))) in if v = [] then Unknown else v)"

text \<open>
  The object that the decoders return, the registry supplies and \<^verbatim>\<open>upsertSession\<close>
  and \<^verbatim>\<open>aggregateUsage\<close> read. A field holds whatever value JavaScript put there.
  (A registry record has further fields, which the ingestion never reads.)
\<close>

record session =
  source :: json
  sessionId :: json
  agentId :: json
  label :: json
  model :: json
  updatedAt :: json
  inputTokens :: json
  outputTokens :: json
  totalTokens :: json
  inputQuery :: json
  sourcePath :: json

definition hasTokenActivity :: "session \<Rightarrow> bool" where
  "hasTokenActivity r =
     (let total = toNumber (totalTokens r);
          input = toNumber (inputTokens r);
          output = toNumber (outputTokens r)
      in 0 < total \<or> 0 < input \<or> 0 < output)"

definition isUnknownZeroNoiseRecord :: "session \<Rightarrow> bool" where
  "isUnknownZeroNoiseRecord r = (normalizeModelName (model r) = Unknown \<and> \<not> hasTokenActivity r)"

subsection \<open>The merger\<close>

definition mergeOpenClawParsedWithRegistry ::
    "(jsstr \<Rightarrow> jsnum) \<Rightarrow> session \<Rightarrow> session option \<Rightarrow> session" where
  "mergeOpenClawParsedWithRegistry dp parsed registryRecord =
     (case registryRecord of
        None \<Rightarrow> parsed
      | Some reg \<Rightarrow>
          let modelFromRegistry = normalizeModelName (model reg);
              parsedModel = normalizeModelName (model parsed);
              registryInput = toNumber (inputTokens reg);
              registryOutput = toNumber (outputTokens reg);
              registryTotal = toNumber (totalTokens reg)
          in parsed\<lparr>
               label := or_else (or_else (label reg) (label parsed)) JNull,
               model := JStr (if modelFromRegistry \<noteq> Unknown then modelFromRegistry else parsedModel),
               updatedAt := JNum (Fin (max (toTimestamp dp (updatedAt reg) 0)
                                          (toTimestamp dp (updatedAt parsed) 0))),
               inputTokens := (if 0 < registryInput then JNum (Fin registryInput) else inputTokens parsed),
               outputTokens := (if 0 < registryOutput then JNum (Fin registryOutput) else outputTokens parsed),
               totalTokens := (if 0 < registryTotal then JNum (Fin registryTotal) else totalTokens parsed),
               sourcePath := or_else (or_else (sourcePath parsed) (sourcePath reg)) JNull\<rparr>)"

section \<open>The format decoders\<close>

text \<open>
  A log file is read as its non-empty lines, each either a JSON value or a line
  that \<^verbatim>\<open>JSON.parse\<close> rejects (\<open>None\<close>), which the loop skips.
\<close>

definition part_text :: "json \<Rightarrow> jsstr" where
  "part_text part =
     (if \<not> truthy part then []
      else case part of
             JStr s \<Rightarrow> s
           | _ \<Rightarrow> (case get ''text'' part of
                      JStr s \<Rightarrow> s
                    | _ \<Rightarrow> (case get ''input_text'' part of JStr s \<Rightarrow> s | _ \<Rightarrow> [])))"

fun join_lines :: "jsstr list \<Rightarrow> jsstr" where
  "join_lines [] = []"
| "join_lines [x] = x"
| "join_lines (x # y # ys) = x @ 10 # join_lines (y # ys)"

definition extractTextFromContent :: "json \<Rightarrow> jsstr" where
  "extractTextFromContent content =
     (if \<not> truthy content then []
      else case content of
             JStr s \<Rightarrow> s
           | JArr parts \<Rightarrow> trim (join_lines (filter (\<lambda>s. s \<noteq> []) (map part_text parts)))
           | _ \<Rightarrow> (case get ''text'' content of
                      JStr s \<Rightarrow> s
                    | _ \<Rightarrow> (case get ''input_text'' content of JStr s \<Rightarrow> s | _ \<Rightarrow> [])))"

definition shouldSkipAutoInjectedQuery :: "jsstr \<Rightarrow> bool" where
  "shouldSkipAutoInjectedQuery probe =
     (str_includes probe (str ''AGENTS.md instructions'') \<or>
      str_includes probe (str ''<permissions instructions>'') \<or>
      str_includes probe (str ''You are Codex, a coding agent based on GPT-5''))"

text \<open>The variables of a decoder's loop.\<close>

record parse_state =
  ps_sessionId :: json
  ps_label :: json
  ps_model :: jsstr
  ps_updatedAt :: int
  ps_inputTokens :: int
  ps_outputTokens :: int
  ps_totalTokens :: int
  ps_inputQuery :: json

definition bump_updatedAt :: "(jsstr \<Rightarrow> jsnum) \<Rightarrow> json \<Rightarrow> parse_state \<Rightarrow> parse_state" where
  "bump_updatedAt dp ts st =
     (if truthy ts
      then st\<lparr>ps_updatedAt := max (ps_updatedAt st) (toTimestamp dp ts (ps_updatedAt st))\<rparr>
      else st)"

text \<open>One pass of the loop body of \<^verbatim>\<open>parseOpenClawSessionFile\<close>.\<close>

definition openclaw_line :: "(jsstr \<Rightarrow> jsnum) \<Rightarrow> parse_state \<Rightarrow> json option \<Rightarrow> parse_state" where
  "openclaw_line dp st0 line =
     (case line of
        None \<Rightarrow> st0
      | Some row \<Rightarrow>
          let st = bump_updatedAt dp (get ''timestamp'' row) st0 in
          if get ''type'' row = JStr (str ''session'') then
            bump_updatedAt dp (get ''timestamp'' row)
              (if truthy (get ''id'' row) then st\<lparr>ps_sessionId := JStr (to_str (get ''id'' row))\<rparr> else st)
          else if get ''type'' row = JStr (str ''model_change'') \<and> truthy (get ''modelId'' row) then
            st\<lparr>ps_model := normalizeModelName (get ''modelId'' row)\<rparr>
          else if get ''type'' row \<noteq> JStr (str ''message'') then st
          else
            let message = or_else (get ''message'' row) (JObj []);
                st = bump_updatedAt dp (get ''timestamp'' message) st
            in if get ''role'' message = JStr (str ''user'') then
                 (case normalizeQueryText (JStr (extractTextFromContent (get ''content'' message))) 1200 of
                    Some query \<Rightarrow> st\<lparr>ps_inputQuery := JStr query\<rparr>
                  | None \<Rightarrow> st)
               else if get ''role'' message \<noteq> JStr (str ''assistant'') then st
               else
                 let st = (if truthy (get ''model'' message)
                           then st\<lparr>ps_model := normalizeModelName (get ''model'' message)\<rparr> else st);
                     usage = or_else (get ''usage'' message) (JObj []);
                     input = toNumber (get ''input'' usage) + toNumber (get ''cacheRead'' usage)
                             + toNumber (get ''cacheWrite'' usage);
                     output = toNumber (get ''output'' usage);
                     total = (if toNumber (get ''totalTokens'' usage) \<noteq> 0
                              then toNumber (get ''totalTokens'' usage) else input + output)
                 in st\<lparr>ps_inputTokens := ps_inputTokens st + input,
                        ps_outputTokens := ps_outputTokens st + output,
                        ps_totalTokens := ps_totalTokens st + total,
                        ps_label := (if \<not> truthy (ps_label st) \<and> truthy (get ''stopReason'' message)
                                     then JStr (to_str (get ''stopReason'' message)) else ps_label st)\<rparr>)"

text \<open>
  \<^verbatim>\<open>path.basename\<close> of a path that does not end in a separator, and the file
  name patterns \<^verbatim>\<open>/\.jsonl(\.deleted\..+)?$/i\<close> and
  \<^verbatim>\<open>/^([0-9a-f-]{36})\.jsonl(?:\.deleted\..+)?$/i\<close>.
\<close>

definition basename :: "jsstr \<Rightarrow> jsstr" where
  "basename p = rev (takeWhile (\<lambda>c. c \<noteq> 47) (rev p))"

definition dot :: re where
  "dot = RCls True [(10, 10), (13, 13), (8232, 8233)]"

definition deleted_suffix :: re where
  "deleted_suffix = seqs [lit ''.deleted.'', plus dot]"

definition JSONL_RE :: re where
  "JSONL_RE = seqs [lit ''.jsonl'', opt deleted_suffix, REol]"

definition SESSION_FILE_RE :: re where
  "SESSION_FILE_RE = seqs [RBol,
     RCap (exactly 36 (RCls False [rg CHR ''0'' CHR ''9'', rg CHR ''a'' CHR ''f'', (45, 45)])),
     lit ''.jsonl'', opt deleted_suffix, REol]"

text \<open>What the file system and the clock give one ingestion pass.\<close>

record file_stat =
  mtimeMs :: int
  size :: int
  isFile :: bool

record world =
  date_parse :: "jsstr \<Rightarrow> jsnum"
  now :: int
  retention_days :: int
  session_files :: "jsstr \<Rightarrow> jsstr list"
  codex_files :: "jsstr list"
  safeStat :: "jsstr \<Rightarrow> file_stat option"
  readFile :: "jsstr \<Rightarrow> json option list option"

definition initial_updatedAt :: "world \<Rightarrow> file_stat \<Rightarrow> int" where
  "initial_updatedAt w stat = (if mtimeMs stat \<noteq> 0 then mtimeMs stat else now w)"

definition parseOpenClawSessionFile :: "world \<Rightarrow> jsstr \<Rightarrow> jsstr \<Rightarrow> file_stat \<Rightarrow> session option" where
  "parseOpenClawSessionFile w filePath agent stat =
     (case readFile w filePath of
        None \<Rightarrow> None
      | Some lines \<Rightarrow>
          if lines = [] then None
          else
            let st0 = \<lparr>ps_sessionId = (case match_group True SESSION_FILE_RE 0 None (basename filePath) of
                                         Some m \<Rightarrow> JStr m | None \<Rightarrow> JNull),
                       ps_label = JNull, ps_model = Unknown,
                       ps_updatedAt = initial_updatedAt w stat,
                       ps_inputTokens = 0, ps_outputTokens = 0, ps_totalTokens = 0,
                       ps_inputQuery = JNull\<rparr>;
                st = foldl (openclaw_line (date_parse w)) st0 lines
            in if \<not> truthy (ps_sessionId st) then None
               else Some \<lparr>source = JStr (str ''openclaw''), sessionId = ps_sessionId st,
                          agentId = JStr agent, label = ps_label st,
                          model = JStr (normalizeModelName (JStr (ps_model st))),
                          updatedAt = JNum (Fin (ps_updatedAt st)),
                          inputTokens = JNum (Fin (ps_inputTokens st)),
                          outputTokens = JNum (Fin (ps_outputTokens st)),
                          totalTokens = JNum (Fin (ps_totalTokens st)),
                          inputQuery = ps_inputQuery st, sourcePath = JStr filePath\<rparr>)"

text \<open>One pass of the loop body of \<^verbatim>\<open>parseCodexSessionFile\<close>.\<close>

definition codex_line :: "(jsstr \<Rightarrow> jsnum) \<Rightarrow> parse_state \<Rightarrow> json option \<Rightarrow> parse_state" where
  "codex_line dp st0 line =
     (case line of
        None \<Rightarrow> st0
      | Some row \<Rightarrow>
          let st = bump_updatedAt dp (get ''timestamp'' row) st0;
              payload = get ''payload'' row
          in
          if get ''type'' row = JStr (str ''session_meta'') then
            bump_updatedAt dp (get ''timestamp'' payload)
              (st\<lparr>ps_sessionId := or_else (get ''id'' payload) (ps_sessionId st)\<rparr>)
          else if get ''type'' row = JStr (str ''turn_context'') \<and> truthy (get ''model'' payload) then
            st\<lparr>ps_model := normalizeModelName (get ''model'' payload)\<rparr>
          else if get ''type'' row = JStr (str ''response_item'') then
            (let payload = or_else (get ''payload'' row) (JObj []) in
             if get ''type'' payload = JStr (str ''message'') \<and> get ''role'' payload = JStr (str ''user'')
             then (case normalizeQueryText (JStr (extractTextFromContent (get ''content'' payload))) 1200 of
                     None \<Rightarrow> st
                   | Some query \<Rightarrow>
                       if \<not> shouldSkipAutoInjectedQuery query then st\<lparr>ps_inputQuery := JStr query\<rparr>
                       else if \<not> truthy (ps_inputQuery st) then st\<lparr>ps_inputQuery := JStr query\<rparr>
                       else st)
             else st)
          else if get ''type'' row \<noteq> JStr (str ''event_msg'')
                  \<or> get ''type'' payload \<noteq> JStr (str ''token_count'') then st
          else
            let info = or_else (get ''info'' payload) (JObj []);
                total = or_else (get ''total_token_usage'' info) (JObj []);
                input = toNumber (get ''input_tokens'' total);
                output = toNumber (get ''output_tokens'' total)
            in st\<lparr>ps_inputTokens := input,
                   ps_outputTokens := output,
                   ps_totalTokens := (if toNumber (get ''total_tokens'' total) \<noteq> 0
                                      then toNumber (get ''total_tokens'' total) else input + output)\<rparr>)"

text \<open>\<^verbatim>\<open>path.basename(filePath, ".jsonl")\<close>.\<close>

definition basename_ext :: "jsstr \<Rightarrow> jsstr \<Rightarrow> jsstr" where
  "basename_ext p ext =
     (let b = basename p
      in if b \<noteq> ext \<and> length ext \<le> length b \<and> drop (length b - length ext) b = ext
         then take (length b - length ext) b else b)"

definition parseCodexSessionFile :: "world \<Rightarrow> jsstr \<Rightarrow> file_stat \<Rightarrow> session option" where
  "parseCodexSessionFile w filePath stat =
     (case readFile w filePath of
        None \<Rightarrow> None
      | Some lines \<Rightarrow>
          if lines = [] then None
          else
            let st0 = \<lparr>ps_sessionId = JNull, ps_label = JNull, ps_model = str ''Codex Local'',
                       ps_updatedAt = initial_updatedAt w stat,
                       ps_inputTokens = 0, ps_outputTokens = 0, ps_totalTokens = 0,
                       ps_inputQuery = JNull\<rparr>;
                st = foldl (codex_line (date_parse w)) st0 lines
            in Some \<lparr>source = JStr (str ''codex''),
                      sessionId = (if \<not> truthy (ps_sessionId st)
                                   then JStr (basename_ext filePath (str ''.jsonl''))
                                   else ps_sessionId st),
                      agentId = JStr (str ''codex''), label = JStr (str ''Codex local session''),
                      model = JStr (normalizeModelName (JStr (ps_model st))),
                      updatedAt = JNum (Fin (ps_updatedAt st)),
                      inputTokens = JNum (Fin (ps_inputTokens st)),
                      outputTokens = JNum (Fin (ps_outputTokens st)),
                      totalTokens = JNum (Fin (ps_totalTokens st)),
                      inputQuery = ps_inputQuery st, sourcePath = JStr filePath\<rparr>)"


section \<open>The store\<close>

text \<open>
  The four tables of \<^verbatim>\<open>getDb\<close>, each the list of its rows in insertion order; a
  column is typed as the schema types it (\<^verbatim>\<open>TEXT\<close> that may be \<^verbatim>\<open>NULL\<close> is an
  option). The \<^verbatim>\<open>day\<close> column of \<^verbatim>\<open>token_daily\<close> holds a calendar day, kept here as
  its number of days since 1970-01-01, which \<^verbatim>\<open>strftime('%Y-%m-%d', ...)\<close> prints. A
  \<^verbatim>\<open>daily_row\<close> is a row of the \<^verbatim>\<open>SELECT\<close> that fills the table: its day is \<^verbatim>\<open>NULL\<close> where
  \<^verbatim>\<open>strftime\<close> gives no date, and the table, whose \<^verbatim>\<open>day\<close> is \<^verbatim>\<open>NOT NULL\<close>, takes no such
  row. Numbers are integers, as everywhere in the model: an \<^verbatim>\<open>INTEGER\<close> column keeps a
  number that is an integer of 64 bits as an integer, and any other number as a
  \<^verbatim>\<open>REAL\<close>.
\<close>

record rollup_row =
  c_source :: jsstr
  session_id :: jsstr
  agent_id :: "jsstr option"
  c_model :: jsstr
  updated_at :: int
  input_tokens :: int
  output_tokens :: int
  total_tokens :: int

record fact_row = rollup_row +
  c_label :: "jsstr option"
  input_query :: "jsstr option"
  source_path :: "jsstr option"

record daily_row =
  d_day :: "int option"
  d_source :: jsstr
  d_model :: jsstr
  d_input_tokens :: int
  d_output_tokens :: int
  d_total_tokens :: int
  d_sessions :: int

record ingest_row =
  i_source :: jsstr
  file_path :: jsstr
  mtime_ms :: int
  size_bytes :: int
  ingested_at :: int

record db =
  session_rollup :: "rollup_row list"
  session_fact :: "fact_row list"
  token_daily :: "daily_row list"
  ingest_file :: "ingest_row list"

definition same_session :: "('a rollup_row_scheme) \<Rightarrow> ('b rollup_row_scheme) \<Rightarrow> bool" where
  "same_session a b = (c_source a = c_source b \<and> session_id a = session_id b)"

text \<open>\<^verbatim>\<open>upsertRollup\<close>: on a conflict every other column takes the incoming value.\<close>

fun upsertRollup :: "rollup_row \<Rightarrow> rollup_row list \<Rightarrow> rollup_row list" where
  "upsertRollup excluded [] = [excluded]"
| "upsertRollup excluded (old # rest) =
     (if same_session old excluded
      then old\<lparr>agent_id := agent_id excluded, c_model := c_model excluded,
               updated_at := updated_at excluded, input_tokens := input_tokens excluded,
               output_tokens := output_tokens excluded, total_tokens := total_tokens excluded\<rparr> # rest
      else old # upsertRollup excluded rest)"

text \<open>\<^verbatim>\<open>COALESCE(a, b)\<close>, and SQLite's \<^verbatim>\<open>LENGTH\<close> of a text, which stops at a NUL.\<close>

definition coalesce :: "'a option \<Rightarrow> 'a option \<Rightarrow> 'a option" where
  "coalesce a b = (case a of Some x \<Rightarrow> Some x | None \<Rightarrow> b)"

definition sql_length :: "jsstr \<Rightarrow> nat" where
  "sql_length s = length (takeWhile (\<lambda>c. c \<noteq> 0) s)"

definition fact_conflict :: "fact_row \<Rightarrow> fact_row \<Rightarrow> fact_row" where
  "fact_conflict old excluded =
     old\<lparr>agent_id := agent_id excluded,
         c_label := coalesce (c_label excluded) (c_label old),
         c_model := c_model excluded,
         updated_at := updated_at excluded,
         input_tokens := input_tokens excluded,
         output_tokens := output_tokens excluded,
         total_tokens := total_tokens excluded,
         input_query := (case input_query excluded of
                           Some q \<Rightarrow> (if 0 < sql_length q then Some q else input_query old)
                         | None \<Rightarrow> input_query old),
         source_path := coalesce (source_path excluded) (source_path old)\<rparr>"

fun upsertFact :: "fact_row \<Rightarrow> fact_row list \<Rightarrow> fact_row list" where
  "upsertFact excluded [] = [excluded]"
| "upsertFact excluded (old # rest) =
     (if same_session old excluded then fact_conflict old excluded # rest
      else old # upsertFact excluded rest)"

definition same_file :: "ingest_row \<Rightarrow> ingest_row \<Rightarrow> bool" where
  "same_file a b = (i_source a = i_source b \<and> file_path a = file_path b)"

fun upsertIngestedFileState :: "ingest_row \<Rightarrow> ingest_row list \<Rightarrow> ingest_row list" where
  "upsertIngestedFileState excluded [] = [excluded]"
| "upsertIngestedFileState excluded (old # rest) =
     (if same_file old excluded
      then old\<lparr>mtime_ms := mtime_ms excluded, size_bytes := size_bytes excluded,
               ingested_at := ingested_at excluded\<rparr> # rest
      else old # upsertIngestedFileState excluded rest)"

definition getIngestedFileState :: "jsstr \<Rightarrow> jsstr \<Rightarrow> db \<Rightarrow> ingest_row option" where
  "getIngestedFileState src filePath d =
     find (\<lambda>r. i_source r = src \<and> file_path r = filePath) (ingest_file d)"

text \<open>\<^verbatim>\<open>upsertSession\<close>, the closure of \<^verbatim>\<open>ingestDashboardData\<close> through which every row is written.\<close>

definition codex :: jsstr where
  "codex = str ''codex''"

definition openclaw :: jsstr where
  "openclaw = str ''openclaw''"

definition opt_string :: "json \<Rightarrow> jsstr option" where
  "opt_string v = (if truthy v then Some (to_str v) else None)"

definition session_row :: "world \<Rightarrow> session \<Rightarrow> fact_row" where
  "session_row w row =
     (let inputTokens' = toNumber (inputTokens row);
          outputTokens' = toNumber (outputTokens row)
      in \<lparr>c_source = (if source row = JStr codex then codex else openclaw),
          session_id = to_str (sessionId row),
          agent_id = opt_string (agentId row),
          c_model = normalizeModelName (model row),
          updated_at = toTimestamp (date_parse w) (updatedAt row) (now w),
          input_tokens = inputTokens',
          output_tokens = outputTokens',
          total_tokens = (if toNumber (totalTokens row) \<noteq> 0 then toNumber (totalTokens row)
                          else inputTokens' + outputTokens'),
          c_label = opt_string (label row),
          input_query = normalizeQueryText (inputQuery row) 1200,
          source_path = opt_string (sourcePath row)\<rparr>)"

definition upsertSession :: "world \<Rightarrow> session \<Rightarrow> db \<Rightarrow> db" where
  "upsertSession w row d =
     (if \<not> truthy (sessionId row) then d
      else if \<not> hasTokenActivity row then d
      else if isUnknownZeroNoiseRecord row then d
      else d\<lparr>session_rollup := upsertRollup (rollup_row.truncate (session_row w row)) (session_rollup d),
              session_fact := upsertFact (session_row w row) (session_fact d)\<rparr>)"

subsection \<open>The daily buckets\<close>

text \<open>
  SQLite's integer \<^verbatim>\<open>/\<close> truncates towards zero; \<^verbatim>\<open>'unixepoch'\<close> reads seconds, and
  the date of a second is the day it falls in. The date functions work from
  -4713-11-24 12:00:00 to 9999-12-31 23:59:59: for a second outside these,
  \<^verbatim>\<open>strftime\<close> is \<^verbatim>\<open>NULL\<close>. \<^verbatim>\<open>TRIM\<close> strips spaces only.
\<close>

definition sql_div :: "int \<Rightarrow> int \<Rightarrow> int" where
  "sql_div a b = (if (a < 0) = (b < 0) then \<bar>a\<bar> div \<bar>b\<bar> else - (\<bar>a\<bar> div \<bar>b\<bar>))"

definition day_of :: "int \<Rightarrow> int option" where
  "day_of t = (let s = sql_div t 1000
               in if - 210866760000 \<le> s \<and> s < 253402300800 then Some (s div 86400) else None)"

definition sql_trim :: "jsstr \<Rightarrow> jsstr" where
  "sql_trim s = rev (dropWhile (\<lambda>c. c = 32) (rev (dropWhile (\<lambda>c. c = 32) s)))"

definition daily_model :: "jsstr \<Rightarrow> jsstr" where
  "daily_model m = (if sql_trim m = [] then Unknown else sql_trim m)"

definition daily_key :: "rollup_row \<Rightarrow> int option \<times> jsstr \<times> jsstr" where
  "daily_key r = (day_of (updated_at r), c_source r, daily_model (c_model r))"

definition bucket_key :: "daily_row \<Rightarrow> int option \<times> jsstr \<times> jsstr" where
  "bucket_key b = (d_day b, d_source b, d_model b)"

text \<open>
  The \<^verbatim>\<open>SELECT\<close> of \<^verbatim>\<open>rebuildTokenDaily\<close>: every row of \<^verbatim>\<open>session_rollup\<close> with
  \<^verbatim>\<open>total_tokens > 0\<close> is added to the group of its key, a group being created by its
  first row (\<^verbatim>\<open>GROUP BY 1, 2, 3\<close> with \<^verbatim>\<open>SUM\<close> and \<^verbatim>\<open>COUNT(*)\<close>).
\<close>

fun add_to_bucket :: "rollup_row \<Rightarrow> daily_row list \<Rightarrow> daily_row list" where
  "add_to_bucket r [] =
     [\<lparr>d_day = day_of (updated_at r), d_source = c_source r, d_model = daily_model (c_model r),
       d_input_tokens = input_tokens r, d_output_tokens = output_tokens r,
       d_total_tokens = total_tokens r, d_sessions = 1\<rparr>]"
| "add_to_bucket r (b # bs) =
     (if bucket_key b = daily_key r
      then b\<lparr>d_input_tokens := d_input_tokens b + input_tokens r,
             d_output_tokens := d_output_tokens b + output_tokens r,
             d_total_tokens := d_total_tokens b + total_tokens r,
             d_sessions := d_sessions b + 1\<rparr> # bs
      else b # add_to_bucket r bs)"

text \<open>
  \<^verbatim>\<open>SUM\<close> raises \<^verbatim>\<open>integer overflow\<close> when all the values of a group are integers (of
  64 bits, as an \<^verbatim>\<open>INTEGER\<close> column keeps them) and adding them, in the order of the
  table, leaves the integers of 64 bits at some row. With a \<^verbatim>\<open>REAL\<close> among them it
  raises nothing and sums in floating point, where the model keeps the exact sum.
\<close>

definition is_integer :: "int \<Rightarrow> bool" where
  "is_integer v = (- 9223372036854775808 < v \<and> v < 9223372036854775808)"

fun prefix_overflow :: "int \<Rightarrow> int list \<Rightarrow> bool" where
  "prefix_overflow acc [] = False"
| "prefix_overflow acc (v # vs) =
     (if - 9223372036854775808 \<le> acc + v \<and> acc + v < 9223372036854775808
      then prefix_overflow (acc + v) vs else True)"

definition sum_overflows :: "int list \<Rightarrow> bool" where
  "sum_overflows vs = (list_all is_integer vs \<and> prefix_overflow 0 vs)"

text \<open>
  The \<^verbatim>\<open>INSERT\<close> of \<^verbatim>\<open>rebuildTokenDaily\<close> fails, and inserts nothing, when a selected row
  has no day (\<^verbatim>\<open>token_daily.day\<close> is \<^verbatim>\<open>NOT NULL\<close>) or a \<^verbatim>\<open>SUM\<close> of a group overflows.
\<close>

definition insert_fails :: "rollup_row list \<Rightarrow> bool" where
  "insert_fails rows =
     (list_ex (\<lambda>r. day_of (updated_at r) = None) rows
      \<or> list_ex (\<lambda>r. let g = filter (\<lambda>x. daily_key x = daily_key r) rows
                     in sum_overflows (map input_tokens g) \<or> sum_overflows (map output_tokens g)
                        \<or> sum_overflows (map total_tokens g)) rows)"

datatype sqlite_error = SqliteError

text \<open>
  \<^verbatim>\<open>rebuildTokenDaily\<close>: the table is emptied by one statement and refilled by the
  next, outside a transaction. The result is the error thrown, if any, and the
  store as the call leaves it: when the \<^verbatim>\<open>INSERT\<close> fails the table stays empty.
\<close>

definition rebuildTokenDaily :: "db \<Rightarrow> sqlite_error option \<times> db" where
  "rebuildTokenDaily d0 =
     (let d = d0\<lparr>token_daily := []\<rparr>;
          rows = filter (\<lambda>r. 0 < total_tokens r) (session_rollup d)
      in if insert_fails rows then (Some SqliteError, d)
         else (None, d\<lparr>token_daily := foldl (\<lambda>bs r. add_to_bucket r bs) [] rows\<rparr>))"

text \<open>
  In the words of the specification: the stored session rows that match a key
  \<open>(day, source, model)\<close> and have strictly positive total tokens.
\<close>

definition matching_rows :: "int option \<times> jsstr \<times> jsstr \<Rightarrow> rollup_row list \<Rightarrow> rollup_row list" where
  "matching_rows k rows = filter (\<lambda>r. 0 < total_tokens r \<and> daily_key r = k) rows"

subsection \<open>One ingestion pass\<close>

definition registry_key :: "json \<Rightarrow> json \<Rightarrow> jsstr" where
  "registry_key agent sid = to_str agent @ 58 # to_str sid"

definition registry_add :: "(jsstr \<Rightarrow> jsnum) \<Rightarrow> (jsstr \<rightharpoonup> session) \<Rightarrow> session \<Rightarrow> (jsstr \<rightharpoonup> session)" where
  "registry_add dp m record =
     (if \<not> truthy (sessionId record) then m
      else let key = registry_key (agentId record) (sessionId record)
           in case m key of
                None \<Rightarrow> m(key \<mapsto> record)
              | Some existing \<Rightarrow>
                  if toTimestamp dp (updatedAt existing) 0 \<le> toTimestamp dp (updatedAt record) 0
                  then m(key \<mapsto> record) else m)"

definition listOpenClawSessionFiles :: "world \<Rightarrow> jsstr \<Rightarrow> jsstr list" where
  "listOpenClawSessionFiles w agent =
     filter (\<lambda>file. re_test True JSONL_RE (basename file)) (session_files w agent)"

definition ends_with :: "jsstr \<Rightarrow> jsstr \<Rightarrow> bool" where
  "ends_with s t = (length t \<le> length s \<and> drop (length s - length t) s = t)"

text \<open>
  The files of a listing that \<^verbatim>\<open>safeStat\<close> finds to be regular files, in ascending
  order of modification time (the sort is stable). Modification times are whole
  milliseconds here, so \<^verbatim>\<open>Math.round\<close> leaves them as they are.
\<close>

definition stat_files :: "world \<Rightarrow> jsstr list \<Rightarrow> (jsstr \<times> file_stat) list" where
  "stat_files w paths =
     sort_key (\<lambda>item. mtimeMs (snd item))
       (List.map_filter (\<lambda>p. case safeStat w p of
                               Some st \<Rightarrow> if isFile st then Some (p, st) else None
                             | None \<Rightarrow> None) paths)"

definition file_unchanged :: "jsstr \<Rightarrow> jsstr \<times> file_stat \<Rightarrow> db \<Rightarrow> bool" where
  "file_unchanged src item d =
     (case getIngestedFileState src (fst item) d of
        None \<Rightarrow> False
      | Some prev \<Rightarrow> mtime_ms prev = mtimeMs (snd item) \<and> size_bytes prev = size (snd item))"

definition record_file :: "world \<Rightarrow> jsstr \<Rightarrow> jsstr \<times> file_stat \<Rightarrow> db \<Rightarrow> db" where
  "record_file w src item d =
     d\<lparr>ingest_file := upsertIngestedFileState
          \<lparr>i_source = src, file_path = fst item, mtime_ms = mtimeMs (snd item),
           size_bytes = size (snd item), ingested_at = now w\<rparr> (ingest_file d)\<rparr>"

definition ingest_openclaw_file ::
    "world \<Rightarrow> (jsstr \<rightharpoonup> session) \<Rightarrow> jsstr \<Rightarrow> db \<Rightarrow> jsstr \<times> file_stat \<Rightarrow> db" where
  "ingest_openclaw_file w registryBySession agent d item =
     (if file_unchanged openclaw item d then d
      else record_file w openclaw item
             (case parseOpenClawSessionFile w (fst item) agent (snd item) of
                None \<Rightarrow> d
              | Some parsed \<Rightarrow>
                  upsertSession w
                    (mergeOpenClawParsedWithRegistry (date_parse w) parsed
                       (registryBySession (registry_key (JStr agent) (sessionId parsed)))) d))"

definition ingest_codex_file :: "world \<Rightarrow> db \<Rightarrow> jsstr \<times> file_stat \<Rightarrow> db" where
  "ingest_codex_file w d item =
     (if file_unchanged codex item d then d
      else record_file w codex item
             (case parseCodexSessionFile w (fst item) (snd item) of
                None \<Rightarrow> d
              | Some parsed \<Rightarrow> upsertSession w parsed d))"

definition registry_row :: "session \<Rightarrow> session" where
  "registry_row record =
     \<lparr>source = JStr openclaw, sessionId = sessionId record, agentId = agentId record,
      label = label record, model = model record, updatedAt = updatedAt record,
      inputTokens = inputTokens record, outputTokens = outputTokens record,
      totalTokens = totalTokens record, inputQuery = JNull, sourcePath = sourcePath record\<rparr>"

definition no_activity :: "('a rollup_row_scheme) \<Rightarrow> bool" where
  "no_activity r = (total_tokens r \<le> 0 \<and> input_tokens r \<le> 0 \<and> output_tokens r \<le> 0)"

definition SESSION_RETENTION_MS :: "world \<Rightarrow> int" where
  "SESSION_RETENTION_MS w = retention_days w * 24 * 60 * 60 * 1000"

definition ingest_files :: "world \<Rightarrow> jsstr list \<Rightarrow> session list \<Rightarrow> db \<Rightarrow> db" where
  "ingest_files w agents allSessionRecords d0 =
     (let registryBySession = foldl (registry_add (date_parse w)) Map.empty allSessionRecords;
          d = foldl (\<lambda>d agent. foldl (ingest_openclaw_file w registryBySession agent) d
                                  (stat_files w (listOpenClawSessionFiles w agent)))
                d0 agents;
          d = foldl (\<lambda>d record. upsertSession w (registry_row record) d) d allSessionRecords
      in foldl (ingest_codex_file w) d
           (stat_files w (filter (\<lambda>file. ends_with file (str ''.jsonl'')) (codex_files w))))"

definition prune :: "world \<Rightarrow> db \<Rightarrow> db" where
  "prune w d =
     (let cutoff = now w - SESSION_RETENTION_MS w;
          d = d\<lparr>session_fact := filter (\<lambda>r. \<not> no_activity r) (session_fact d)\<rparr>;
          d = d\<lparr>session_rollup := filter (\<lambda>r. \<not> no_activity r) (session_rollup d)\<rparr>;
          d = d\<lparr>session_fact := filter (\<lambda>r. \<not> updated_at r < cutoff) (session_fact d)\<rparr>
      in d\<lparr>session_rollup := filter (\<lambda>r. \<not> updated_at r < cutoff) (session_rollup d)\<rparr>)"

text \<open>
  \<^verbatim>\<open>ingestDashboardData\<close>: the error that the pass throws, if any, and the store as
  the pass leaves it. The rebuild is the last step of the pass, and the error is its.
\<close>

definition ingestDashboardData ::
    "world \<Rightarrow> jsstr list \<Rightarrow> session list \<Rightarrow> db \<Rightarrow> sqlite_error option \<times> db" where
  "ingestDashboardData w agents allSessionRecords d =
     rebuildTokenDaily (prune w (ingest_files w agents allSessionRecords d))"

section \<open>The aggregator\<close>

definition readSessionPointsFromDb :: "db \<Rightarrow> session list" where
  "readSessionPointsFromDb d =
     map (\<lambda>row. \<lparr>source = JStr (c_source row), sessionId = JStr (session_id row),
                 agentId = (case agent_id row of Some a \<Rightarrow> JStr a | None \<Rightarrow> JNull),
                 label = (case c_label row of Some l \<Rightarrow> JStr l | None \<Rightarrow> JNull),
                 model = JStr (normalizeModelName (JStr (c_model row))),
                 updatedAt = JNum (Fin (updated_at row)),
                 inputTokens = JNum (Fin (input_tokens row)),
                 outputTokens = JNum (Fin (output_tokens row)),
                 totalTokens = JNum (Fin (total_tokens row)),
                 inputQuery = (case normalizeQueryText
                                      (case input_query row of Some q \<Rightarrow> JStr q | None \<Rightarrow> JNull) 1200 of
                                 Some q \<Rightarrow> JStr q | None \<Rightarrow> JNull),
                 sourcePath = (case source_path row of
                                 Some p \<Rightarrow> (if p = [] then JNull else JStr p) | None \<Rightarrow> JNull)\<rparr>)
       (sort_key updated_at
          (filter (\<lambda>r. 0 < total_tokens r \<or> 0 < input_tokens r \<or> 0 < output_tokens r) (session_fact d)))"

text \<open>
  The accumulators of the loop of \<^verbatim>\<open>aggregateUsage\<close>. A date key
  (\<^verbatim>\<open>toISOString().slice(0, 10)\<close>) is kept as its day number; \<^verbatim>\<open>toISOString\<close> throws a
  \<^verbatim>\<open>RangeError\<close> beyond the range of dates.
\<close>

datatype error = RangeError

record usage_acc =
  a_totalTokens :: int
  a_inputTokens :: int
  a_outputTokens :: int
  a_sessions :: int
  a_daily :: "(int \<times> int) list"
  a_modelDistribution :: "(jsstr \<times> int) list"
  a_recent :: "session list"
  a_points :: "session list"

fun add_to :: "'k \<Rightarrow> int \<Rightarrow> ('k \<times> int) list \<Rightarrow> ('k \<times> int) list" where
  "add_to k n [] = [(k, n)]"
| "add_to k n ((k', v) # rest) = (if k' = k then (k', v + n) # rest else (k', v) # add_to k n rest)"

definition usage_step :: "world \<Rightarrow> error + usage_acc \<Rightarrow> session \<Rightarrow> error + usage_acc" where
  "usage_step w acc record =
     (case acc of
        Inl e \<Rightarrow> Inl e
      | Inr a \<Rightarrow>
          if \<not> hasTokenActivity record then Inr a
          else if isUnknownZeroNoiseRecord record then Inr a
          else
            let ts = toTimestamp (date_parse w) (updatedAt record) (now w);
                m = normalizeModelName (model record);
                item = \<lparr>source = or_else (source record) (JStr openclaw),
                        sessionId = sessionId record, agentId = agentId record,
                        label = label record, model = JStr m, updatedAt = JNum (Fin ts),
                        inputTokens = JNum (Fin (toNumber (inputTokens record))),
                        outputTokens = JNum (Fin (toNumber (outputTokens record))),
                        totalTokens = JNum (Fin (toNumber (totalTokens record))),
                        inputQuery = or_else (inputQuery record) JNull,
                        sourcePath = sourcePath record\<rparr>
            in if 8640000000000000 < ts then Inl RangeError
               else Inr \<lparr>a_totalTokens = a_totalTokens a + toNumber (totalTokens record),
                         a_inputTokens = a_inputTokens a + toNumber (inputTokens record),
                         a_outputTokens = a_outputTokens a + toNumber (outputTokens record),
                         a_sessions = a_sessions a + 1,
                         a_daily = add_to (ts div 86400000) (toNumber (totalTokens record)) (a_daily a),
                         a_modelDistribution = add_to m (toNumber (totalTokens record)) (a_modelDistribution a),
                         a_recent = a_recent a @ [item],
                         a_points = a_points a @ [item\<lparr>label := JUndef, sourcePath := JUndef\<rparr>]\<rparr>)"

text \<open>
  The result: the totals, the last 14 days of the trend (without the label a
  locale prints), the 8 largest models, the 12 newest sessions and all points in
  time order.
\<close>

record usage =
  u_totalTokens :: int
  u_inputTokens :: int
  u_outputTokens :: int
  u_sessions :: int
  u_trend :: "(int \<times> int) list"
  u_models :: "(jsstr \<times> int) list"
  u_recent :: "session list"
  u_points :: "session list"

definition stamp :: "session \<Rightarrow> int" where
  "stamp r = (case updatedAt r of JNum (Fin n) \<Rightarrow> n | _ \<Rightarrow> 0)"

definition last_n :: "nat \<Rightarrow> 'a list \<Rightarrow> 'a list" where
  "last_n n xs = drop (length xs - n) xs"

definition aggregateUsage :: "world \<Rightarrow> session list \<Rightarrow> error + usage" where
  "aggregateUsage w records =
     (case foldl (usage_step w)
             (Inr \<lparr>a_totalTokens = 0, a_inputTokens = 0, a_outputTokens = 0, a_sessions = 0,
                   a_daily = [], a_modelDistribution = [], a_recent = [], a_points = []\<rparr>)
             records of
        Inl e \<Rightarrow> Inl e
      | Inr a \<Rightarrow>
          Inr \<lparr>u_totalTokens = a_totalTokens a, u_inputTokens = a_inputTokens a,
               u_outputTokens = a_outputTokens a, u_sessions = a_sessions a,
               u_trend = last_n 14 (sort_key fst (a_daily a)),
               u_models = take 8 (sort_key (\<lambda>e. - snd e) (a_modelDistribution a)),
               u_recent = take 12 (sort_key (\<lambda>r. - stamp r) (a_recent a)),
               u_points = sort_key stamp (a_points a)\<rparr>)"


section \<open>The records a decoder counts\<close>

text \<open>
  In the words of the specification: the assistant-role messages of an OpenClaw log
  with what each reports, and the usage-report records of a Codex log with the
  totals each reports.
\<close>

definition parsed_lines :: "json option list \<Rightarrow> json list" where
  "parsed_lines lines = concat (map (\<lambda>line. case line of None \<Rightarrow> [] | Some row \<Rightarrow> [row]) lines)"

definition message_of :: "json \<Rightarrow> json" where
  "message_of row = or_else (get ''message'' row) (JObj [])"

definition is_assistant_message :: "json \<Rightarrow> bool" where
  "is_assistant_message row =
     (get ''type'' row = JStr (str ''message'') \<and> get ''role'' (message_of row) = JStr (str ''assistant''))"

definition usage_of :: "json \<Rightarrow> json" where
  "usage_of row = or_else (get ''usage'' (message_of row)) (JObj [])"

definition reported_input :: "json \<Rightarrow> int" where
  "reported_input row = toNumber (get ''input'' (usage_of row)) + toNumber (get ''cacheRead'' (usage_of row))
     + toNumber (get ''cacheWrite'' (usage_of row))"

definition reported_output :: "json \<Rightarrow> int" where
  "reported_output row = toNumber (get ''output'' (usage_of row))"

definition reported_total :: "json \<Rightarrow> int" where
  "reported_total row =
     (if toNumber (get ''totalTokens'' (usage_of row)) \<noteq> 0 then toNumber (get ''totalTokens'' (usage_of row))
      else reported_input row + reported_output row)"

definition assistant_rows :: "json option list \<Rightarrow> json list" where
  "assistant_rows lines = filter is_assistant_message (parsed_lines lines)"

definition is_token_count :: "json \<Rightarrow> bool" where
  "is_token_count row =
     (get ''type'' row = JStr (str ''event_msg'')
      \<and> get ''type'' (get ''payload'' row) = JStr (str ''token_count''))"

definition total_usage :: "json \<Rightarrow> json" where
  "total_usage row =
     or_else (get ''total_token_usage'' (or_else (get ''info'' (get ''payload'' row)) (JObj []))) (JObj [])"

definition codex_input :: "json \<Rightarrow> int" where
  "codex_input row = toNumber (get ''input_tokens'' (total_usage row))"

definition codex_output :: "json \<Rightarrow> int" where
  "codex_output row = toNumber (get ''output_tokens'' (total_usage row))"

definition codex_total :: "json \<Rightarrow> int" where
  "codex_total row =
     (if toNumber (get ''total_tokens'' (total_usage row)) \<noteq> 0
      then toNumber (get ''total_tokens'' (total_usage row))
      else codex_input row + codex_output row)"

definition token_count_rows :: "json option list \<Rightarrow> json list" where
  "token_count_rows lines = filter is_token_count (parsed_lines lines)"

section \<open>Tables as keyed lists\<close>

text \<open>
  The vocabulary in which two passes are compared. A table with a primary key is
  a list of rows with distinct keys; an upsert either resolves the conflict with
  the stored row of the same key, in place, or appends the row.
\<close>

fun upsert_by :: "('a \<Rightarrow> 'k) \<Rightarrow> ('a \<Rightarrow> 'a \<Rightarrow> 'a) \<Rightarrow> 'a \<Rightarrow> 'a list \<Rightarrow> 'a list" where
  "upsert_by key cf new [] = [new]"
| "upsert_by key cf new (old # rest) =
     (if key old = key new then cf old new # rest else old # upsert_by key cf new rest)"

definition look :: "('a \<Rightarrow> 'k) \<Rightarrow> 'a list \<Rightarrow> 'k \<Rightarrow> 'a option" where
  "look key rows k = find (\<lambda>r. key r = k) rows"

text \<open>What a sequence of upserts leaves under one key, from what was there before.\<close>

definition settle :: "('a \<Rightarrow> 'k) \<Rightarrow> ('a \<Rightarrow> 'a \<Rightarrow> 'a) \<Rightarrow> 'a list \<Rightarrow> 'k \<Rightarrow> 'a option \<Rightarrow> 'a option" where
  "settle key cf ins k z =
     foldl (\<lambda>z new. if key new = k then Some (case z of None \<Rightarrow> new | Some old \<Rightarrow> cf old new) else z)
       z ins"

definition kept :: "('a \<Rightarrow> bool) \<Rightarrow> 'a option \<Rightarrow> 'a option" where
  "kept keep z = (case z of None \<Rightarrow> None | Some r \<Rightarrow> if keep r then Some r else None)"

definition row_key :: "('a rollup_row_scheme) \<Rightarrow> jsstr \<times> jsstr" where
  "row_key r = (c_source r, session_id r)"

definition rollup_conflict :: "rollup_row \<Rightarrow> rollup_row \<Rightarrow> rollup_row" where
  "rollup_conflict old excluded =
     old\<lparr>agent_id := agent_id excluded, c_model := c_model excluded,
         updated_at := updated_at excluded, input_tokens := input_tokens excluded,
         output_tokens := output_tokens excluded, total_tokens := total_tokens excluded\<rparr>"

text \<open>The records that pass the guards of \<^verbatim>\<open>upsertSession\<close>, and the rows they become.\<close>

definition writes :: "session \<Rightarrow> bool" where
  "writes row = (truthy (sessionId row) \<and> hasTokenActivity row \<and> \<not> isUnknownZeroNoiseRecord row)"

definition registry_rows :: "world \<Rightarrow> session list \<Rightarrow> fact_row list" where
  "registry_rows w records = map (\<lambda>record. session_row w (registry_row record))
                                 (filter (\<lambda>record. writes (registry_row record)) records)"

text \<open>The rows a pass keeps at its end.\<close>

definition survives :: "world \<Rightarrow> ('a rollup_row_scheme) \<Rightarrow> bool" where
  "survives w r = (\<not> no_activity r \<and> \<not> updated_at r < now w - SESSION_RETENTION_MS w)"

text \<open>The files of all agents, in the order in which a pass visits them.\<close>

definition agent_items :: "world \<Rightarrow> jsstr list \<Rightarrow> (jsstr \<times> jsstr \<times> file_stat) list" where
  "agent_items w agents =
     concat (map (\<lambda>agent. map (Pair agent) (stat_files w (listOpenClawSessionFiles w agent))) agents)"

definition codex_items :: "world \<Rightarrow> (jsstr \<times> file_stat) list" where
  "codex_items w = stat_files w (filter (\<lambda>file. ends_with file (str ''.jsonl'')) (codex_files w))"

section \<open>Concrete inputs\<close>

text \<open>A platform whose \<^verbatim>\<open>Date.parse\<close> rejects every text, and a session record to vary.\<close>

definition no_date :: "jsstr \<Rightarrow> jsnum" where
  "no_date s = NaN"

definition blank_session :: session where
  "blank_session = \<lparr>source = JStr openclaw, sessionId = JStr (str ''s1''), agentId = JStr (str ''main''),
     label = JNull, model = JStr Unknown, updatedAt = JNum (Fin 1000),
     inputTokens = JNum (Fin 0), outputTokens = JNum (Fin 0), totalTokens = JNum (Fin 0),
     inputQuery = JNull, sourcePath = JNull\<rparr>"

text \<open>A machine with no session files, read on 1970-04-11 with the default retention.\<close>

definition no_files :: "jsstr \<Rightarrow> jsstr list" where
  "no_files agent = []"

definition no_stat :: "jsstr \<Rightarrow> file_stat option" where
  "no_stat p = None"

definition no_content :: "jsstr \<Rightarrow> json option list option" where
  "no_content p = None"

definition quiet_world :: world where
  "quiet_world = \<lparr>date_parse = no_date, now = 8640000000, retention_days = 90,
     session_files = no_files, codex_files = [], safeStat = no_stat, readFile = no_content\<rparr>"

text \<open>
  A store with a row that has no token activity, a row that is too old and a row
  that is neither, in both session tables, and the daily bucket of the old row.
\<close>

definition idle_row :: fact_row where
  "idle_row = \<lparr>c_source = openclaw, session_id = str ''idle'', agent_id = None, c_model = str ''gpt'',
     updated_at = 8000000000, input_tokens = 0, output_tokens = 0, total_tokens = 0,
     c_label = None, input_query = None, source_path = None\<rparr>"

definition old_row :: fact_row where
  "old_row = \<lparr>c_source = openclaw, session_id = str ''old'', agent_id = None, c_model = str ''gpt'',
     updated_at = 86400000, input_tokens = 4, output_tokens = 6, total_tokens = 10,
     c_label = None, input_query = None, source_path = None\<rparr>"

definition live_row :: fact_row where
  "live_row = \<lparr>c_source = openclaw, session_id = str ''s1'', agent_id = Some (str ''main''),
     c_model = str ''gpt'', updated_at = 8000000000, input_tokens = 3, output_tokens = 4,
     total_tokens = 7, c_label = Some (str ''stop''), input_query = Some (str ''hello''),
     source_path = Some (str ''/a/s1.jsonl'')\<rparr>"

definition old_bucket :: daily_row where
  "old_bucket = \<lparr>d_day = Some 1, d_source = openclaw, d_model = str ''gpt'', d_input_tokens = 4,
     d_output_tokens = 6, d_total_tokens = 10, d_sessions = 1\<rparr>"

definition sample_db :: db where
  "sample_db = \<lparr>session_rollup = map rollup_row.truncate [idle_row, old_row, live_row],
     session_fact = [idle_row, old_row, live_row],
     token_daily = [old_bucket], ingest_file = []\<rparr>"

text \<open>An update from the registry for the stored session \<open>s1\<close>: no label, no query text.\<close>

definition registry_update :: session where
  "registry_update = blank_session\<lparr>model := JStr (str ''gpt-5''), totalTokens := JNum (Fin 9)\<rparr>"

text \<open>The daily bucket of the recent row of the sample store.\<close>

definition live_bucket :: daily_row where
  "live_bucket = \<lparr>d_day = Some 92, d_source = openclaw, d_model = str ''gpt'', d_input_tokens = 3,
     d_output_tokens = 4, d_total_tokens = 7, d_sessions = 1\<rparr>"

text \<open>
  A Codex log of two usage reports, each with the running totals 10 in and 5 out,
  and an OpenClaw log of a session record, two assistant messages, each reporting
  10 in and 5 out, and a line that is not JSON.
\<close>

definition token_count_line :: "json option" where
  "token_count_line = Some (JObj [(str ''type'', JStr (str ''event_msg'')),
     (str ''payload'', JObj [(str ''type'', JStr (str ''token_count'')),
        (str ''info'', JObj [(str ''total_token_usage'',
           JObj [(str ''input_tokens'', JNum (Fin 10)), (str ''output_tokens'', JNum (Fin 5))])])])])"

definition assistant_line :: "json option" where
  "assistant_line = Some (JObj [(str ''type'', JStr (str ''message'')),
     (str ''message'', JObj [(str ''role'', JStr (str ''assistant'')),
        (str ''usage'', JObj [(str ''input'', JNum (Fin 10)), (str ''output'', JNum (Fin 5))])])])"

definition session_line :: "json option" where
  "session_line = Some (JObj [(str ''type'', JStr (str ''session'')), (str ''id'', JStr (str ''s1''))])"

definition openclaw_log :: jsstr where
  "openclaw_log = str ''/a/s1.jsonl''"

definition codex_log :: jsstr where
  "codex_log = str ''/c/x.jsonl''"

definition log_content :: "jsstr \<Rightarrow> json option list option" where
  "log_content p = (if p = codex_log then Some [token_count_line, token_count_line]
                    else if p = openclaw_log then Some [session_line, assistant_line, None, assistant_line]
                    else None)"

definition log_world :: world where
  "log_world = quiet_world\<lparr>readFile := log_content\<rparr>"

definition log_stat :: file_stat where
  "log_stat = \<lparr>mtimeMs = 8000000000, size = 100, isFile = True\<rparr>"

text \<open>
  A short secret under a sensitive key, a text with a client id whose value is
  followed by a quote, and the scheduled-task message of the specification:
  a bracketed timestamp, the label U+5B9A U+65F6 U+4EFB U+52A1 with a dash, and the
  answer that begins U+6CA1 U+9519.
\<close>

definition short_secret :: json where
  "short_secret = JObj [(str ''token'', JStr (str ''abc''))]"

definition quoted_client_id :: jsstr where
  "quoted_client_id = str ''client_id=abc'' @ [39] @ str ''def''"

definition agree_text :: jsstr where
  "agree_text = [27809, 38169, 65292, 32487, 32493, 22788, 29702]"

definition scheduled_query :: jsstr where
  "scheduled_query = str ''[Wed 2026-02-18 13:39 GMT+8] '' @ dingshi_renwu @ str '' - '' @ agree_text"

text \<open>
  An empty store, and two registry records with tokens for the session \<open>s1\<close>: one
  whose \<^verbatim>\<open>updatedAt\<close> is the 0 that \<^verbatim>\<open>Number(value.updatedAt || 0)\<close> gives an entry
  of the registry with no timestamp, and one with a recent timestamp.
\<close>

definition empty_store :: db where
  "empty_store = \<lparr>session_rollup = [], session_fact = [], token_daily = [], ingest_file = []\<rparr>"

definition unstamped_record :: session where
  "unstamped_record = blank_session\<lparr>model := JStr (str ''gpt''), updatedAt := JNum (Fin 0),
     totalTokens := JNum (Fin 9)\<rparr>"

definition stamped_record :: session where
  "stamped_record = blank_session\<lparr>model := JStr (str ''gpt''), updatedAt := JNum (Fin 8000000001),
     totalTokens := JNum (Fin 9)\<rparr>"

text \<open>
  A registry record for a session \<open>s2\<close> whose timestamp is 10000-01-01 00:00:00, and
  the row that it becomes.
\<close>

definition future_record :: session where
  "future_record = blank_session\<lparr>sessionId := JStr (str ''s2''), model := JStr (str ''gpt''),
     updatedAt := JNum (Fin 253402300800000), totalTokens := JNum (Fin 9)\<rparr>"

definition future_fact :: fact_row where
  "future_fact = \<lparr>c_source = openclaw, session_id = str ''s2'', agent_id = Some (str ''main''),
     c_model = str ''gpt'', updated_at = 253402300800000, input_tokens = 0, output_tokens = 0,
     total_tokens = 9, c_label = None, input_query = None, source_path = None\<rparr>"

text \<open>The row that such a record becomes when its timestamp resolves to \<open>t\<close>.\<close>

definition registry_fact :: "int \<Rightarrow> fact_row" where
  "registry_fact t = \<lparr>c_source = openclaw, session_id = str ''s1'', agent_id = Some (str ''main''),
     c_model = str ''gpt'', updated_at = t, input_tokens = 0, output_tokens = 0, total_tokens = 9,
     c_label = None, input_query = None, source_path = None\<rparr>"

section \<open>Evaluating the patterns\<close>

text \<open>
  The quantifier's equation in a form the simplifier can run on a numeral count,
  and the unfolding rules with which a match on a concrete text is computed.
\<close>

lemma rep_eval:
  "rep k f mn mx g (p, pv, cs, cap) =
     (if k = 0 then (if mn = 0 then [(p, pv, cs, cap)] else [])
      else if mx = Some 0 then [(p, pv, cs, cap)]
      else let more = concat (map (\<lambda>st'. if mn = 0 \<and> fst st' = p then []
                                        else rep (k - 1) f (mn - 1) (map_option (\<lambda>m. m - 1) mx) g st') (f (p, pv, cs, cap)))
           in if 0 < mn then more else if g then more @ [(p, pv, cs, cap)] else (p, pv, cs, cap) # more)"
proof (cases k)
  case 0
  then show ?thesis by simp
next
  case (Suc n)
  show ?thesis unfolding Suc by (simp cong: if_cong)
qed

lemmas re_defs = str_def rg_def cset_def lit_def star_def lazy_star_def plus_def opt_def at_least_def
  exactly_def space_def digit_def any_char_def not_bracket_def word_ranges_def quote_def
  us_dash_def word_dash_def us_space_dash_def sign_def letter_def iso_date_def sentence_end_def
  any_quote_def ri_bao_def dingshi_renwu_def ws_ranges_def dot_def deleted_suffix_def

lemmas match_defs = cls_match_def other_case_def is_word_def rep_eval replace_all_def replace_first_def
  re_test_def indexOf_def is_ws_def trim_def or_else_def blank_def REDACTED_def

lemmas nq_defs = normalizeQueryText_def redactInline_def CLIENT_KV_RE_def SENSITIVE_INLINE_RE_def
    IMAGE_RE_def MD_IMAGE_RE_def stripMetadataCodeFence_def FENCE_RE_def FENCE_PROBE_RE_def
    CONV_INFO_RE_def UNTRUSTED_RE_def BRACKET_TAG_RE_def TIMESTAMP_TAG_RE_def CURRENT_TIME_RE_def RETURN_SUMMARY_RE_def
    IF_TASK_RE_def CRON_TIME_RE_def CONV_LABEL_RE_def SPACES_RE_def LEADING_NOISE_RE_def AGREE_PREFIX_RE_def HAN_PREFIX_RE_def
    han_ranges_def cut_agree_def cut_han_def strip_leading_noise.simps toLowerCase_def Let_def

lemma nq_empty: "normalizeQueryText (JStr []) n = None"
  by (simp add: nq_defs re_defs match_defs del: rep.simps)

lemma nq_null: "normalizeQueryText JNull n = None"
  by (simp add: nq_defs re_defs match_defs del: rep.simps)

lemma nq_hello: "normalizeQueryText (JStr (str ''hello'')) 1200 = Some (str ''hello'')"
  by (simp add: nq_defs re_defs match_defs del: rep.simps)


section \<open>The rebuild and the error of a pass\<close>

lemma rebuild_store:
  "session_fact (snd (rebuildTokenDaily d)) = session_fact d"
  "session_rollup (snd (rebuildTokenDaily d)) = session_rollup d"
  "ingest_file (snd (rebuildTokenDaily d)) = ingest_file d"
  by (simp_all add: rebuildTokenDaily_def Let_def)

lemma pass_store:
  "session_fact (snd (ingestDashboardData w agents records d))
     = session_fact (prune w (ingest_files w agents records d))"
  "session_rollup (snd (ingestDashboardData w agents records d))
     = session_rollup (prune w (ingest_files w agents records d))"
  "ingest_file (snd (ingestDashboardData w agents records d))
     = ingest_file (prune w (ingest_files w agents records d))"
  by (simp_all add: ingestDashboardData_def rebuild_store)

lemma rebuild_done:
  "\<not> insert_fails (filter (\<lambda>r. 0 < total_tokens r) (session_rollup d)) \<Longrightarrow>
   rebuildTokenDaily d =
     (None, d\<lparr>token_daily := foldl (\<lambda>bs r. add_to_bucket r bs) []
                                  (filter (\<lambda>r. 0 < total_tokens r) (session_rollup d))\<rparr>)"
  by (simp add: rebuildTokenDaily_def Let_def)

lemma rebuild_thrown:
  "insert_fails (filter (\<lambda>r. 0 < total_tokens r) (session_rollup d)) \<Longrightarrow>
   rebuildTokenDaily d = (Some SqliteError, d\<lparr>token_daily := []\<rparr>)"
  by (simp add: rebuildTokenDaily_def Let_def)

lemma pass_done:
  assumes "prune w (ingest_files w agents records d) = p"
    and "\<not> insert_fails (filter (\<lambda>r. 0 < total_tokens r) (session_rollup p))"
  shows "ingestDashboardData w agents records d =
     (None, p\<lparr>token_daily := foldl (\<lambda>bs r. add_to_bucket r bs) []
                                  (filter (\<lambda>r. 0 < total_tokens r) (session_rollup p))\<rparr>)"
  using rebuild_done [OF assms(2)] by (simp add: ingestDashboardData_def assms(1))

lemma pass_thrown:
  assumes "prune w (ingest_files w agents records d) = p"
    and "insert_fails (filter (\<lambda>r. 0 < total_tokens r) (session_rollup p))"
  shows "ingestDashboardData w agents records d = (Some SqliteError, p\<lparr>token_daily := []\<rparr>)"
  using rebuild_thrown [OF assms(2)] by (simp add: ingestDashboardData_def assms(1))

lemmas rebuild_eval = Let_def insert_fails_def sum_overflows_def
  is_integer_def day_of_def sql_div_def daily_key_def bucket_key_def daily_model_def sql_trim_def

section \<open>Reconciliation with the registry\<close>

lemma toNumber_Fin: "toNumber (JNum (Fin n)) = n"
  by (cases "n = 0") (simp_all add: toNumber_def or_else_def to_num_def)

text \<open>
  The fields of the reconciled record, as the code computes them: the counts are
  read by \<^verbatim>\<open>toNumber\<close>, the timestamps by \<^verbatim>\<open>toTimestamp(_, 0)\<close>.
\<close>

lemma merge_fields:
  "inputTokens (mergeOpenClawParsedWithRegistry dp parsed (Some reg)) =
     (if 0 < toNumber (inputTokens reg) then JNum (Fin (toNumber (inputTokens reg))) else inputTokens parsed)
   \<and> outputTokens (mergeOpenClawParsedWithRegistry dp parsed (Some reg)) =
     (if 0 < toNumber (outputTokens reg) then JNum (Fin (toNumber (outputTokens reg))) else outputTokens parsed)
   \<and> totalTokens (mergeOpenClawParsedWithRegistry dp parsed (Some reg)) =
     (if 0 < toNumber (totalTokens reg) then JNum (Fin (toNumber (totalTokens reg))) else totalTokens parsed)
   \<and> updatedAt (mergeOpenClawParsedWithRegistry dp parsed (Some reg)) =
     JNum (Fin (max (toTimestamp dp (updatedAt reg) 0) (toTimestamp dp (updatedAt parsed) 0)))"
  by (simp add: mergeOpenClawParsedWithRegistry_def Let_def)

text \<open>
  The record that the decoder of an OpenClaw log returns carries a timestamp, a
  positive number of milliseconds, when the file has a modification time after 1970.
\<close>

lemma bump_updatedAt_grows: "ps_updatedAt st \<le> ps_updatedAt (bump_updatedAt dp v st)"
  by (simp add: bump_updatedAt_def Let_def)

lemma openclaw_line_grows: "ps_updatedAt st \<le> ps_updatedAt (openclaw_line dp st line)"
proof (cases line)
  case None
  then show ?thesis by (simp add: openclaw_line_def)
next
  case (Some row)
  note up = bump_updatedAt_grows [of _ dp]
  have a: "ps_updatedAt st \<le> ps_updatedAt (bump_updatedAt dp (get ''timestamp'' row) st)"
    by (rule up)
  have b: "ps_updatedAt st
      \<le> ps_updatedAt (bump_updatedAt dp (get ''timestamp'' (or_else (get ''message'' row) (JObj [])))
            (bump_updatedAt dp (get ''timestamp'' row) st))"
    by (rule order_trans [OF a up])
  have c: "ps_updatedAt st
      \<le> ps_updatedAt (bump_updatedAt dp (get ''timestamp'' row)
            (if truthy (get ''id'' row)
             then (bump_updatedAt dp (get ''timestamp'' row) st)\<lparr>ps_sessionId := JStr (to_str (get ''id'' row))\<rparr>
             else bump_updatedAt dp (get ''timestamp'' row) st))"
    using a by (intro order_trans [OF _ up]) simp
  from a b c Some show ?thesis
    by (simp add: openclaw_line_def Let_def split: option.splits)
qed

lemma openclaw_fold_grows: "ps_updatedAt st \<le> ps_updatedAt (foldl (openclaw_line dp) st lines)"
proof (induction lines arbitrary: st)
  case Nil
  show ?case by simp
next
  case (Cons line lines)
  from openclaw_line_grows [of st dp line] Cons [of "openclaw_line dp st line"] show ?case by simp
qed

lemma decoded_timestamp_positive:
  assumes "parseOpenClawSessionFile w filePath agent stat = Some parsed" and "0 < mtimeMs stat"
  shows "\<exists>t. updatedAt parsed = JNum (Fin t) \<and> 0 < t"
proof -
  from assms(1) obtain lines st0 where
    parsed: "updatedAt parsed = JNum (Fin (ps_updatedAt (foldl (openclaw_line (date_parse w)) st0 lines)))"
    and st0: "ps_updatedAt st0 = initial_updatedAt w stat"
    by (auto simp: parseOpenClawSessionFile_def Let_def split: option.splits if_splits)
  from assms(2) st0 have "0 < ps_updatedAt st0" by (simp add: initial_updatedAt_def)
  with openclaw_fold_grows [of st0 "date_parse w" lines]
  have "0 < ps_updatedAt (foldl (openclaw_line (date_parse w)) st0 lines)" by simp
  with parsed show ?thesis by blast
qed

text \<open>
  Claim C3. The registry's counts and the two timestamps are numbers, and the parsed
  record has a timestamp (a positive number of milliseconds, as the decoder gives
  it). Each of the three token counts of the reconciled record is the parsed count
  when the registry's count is zero or negative and the registry's count when that
  is strictly positive, and \<^verbatim>\<open>updatedAt\<close> is the maximum of the two timestamps.
\<close>

theorem merge_precedence:
  assumes "inputTokens reg = JNum (Fin ri)" and "outputTokens reg = JNum (Fin ro)"
    and "totalTokens reg = JNum (Fin rt)"
    and "updatedAt reg = JNum (Fin ru)" and "updatedAt parsed = JNum (Fin pu)" and "0 < pu"
  shows "inputTokens (mergeOpenClawParsedWithRegistry dp parsed (Some reg))
           = (if 0 < ri then JNum (Fin ri) else inputTokens parsed)
       \<and> outputTokens (mergeOpenClawParsedWithRegistry dp parsed (Some reg))
           = (if 0 < ro then JNum (Fin ro) else outputTokens parsed)
       \<and> totalTokens (mergeOpenClawParsedWithRegistry dp parsed (Some reg))
           = (if 0 < rt then JNum (Fin rt) else totalTokens parsed)
       \<and> updatedAt (mergeOpenClawParsedWithRegistry dp parsed (Some reg)) = JNum (Fin (max ru pu))"
  using assms merge_fields [of dp parsed reg]
  by (auto simp: toNumber_Fin toTimestamp_def)

text \<open>
  The scenario of the specification: parsed 500 against a registry 0 stays 500,
  a registry 700 gives 700, and the later of the two timestamps wins.
\<close>

theorem merge_precedence_witness:
  "totalTokens (mergeOpenClawParsedWithRegistry no_date
      (blank_session\<lparr>totalTokens := JNum (Fin 500), updatedAt := JNum (Fin 2000)\<rparr>)
      (Some (blank_session\<lparr>totalTokens := JNum (Fin 0)\<rparr>)))
     = JNum (Fin 500)
   \<and> updatedAt (mergeOpenClawParsedWithRegistry no_date
      (blank_session\<lparr>totalTokens := JNum (Fin 500), updatedAt := JNum (Fin 2000)\<rparr>)
      (Some (blank_session\<lparr>totalTokens := JNum (Fin 0)\<rparr>)))
     = JNum (Fin 2000)
   \<and> totalTokens (mergeOpenClawParsedWithRegistry no_date
      (blank_session\<lparr>totalTokens := JNum (Fin 500), updatedAt := JNum (Fin 2000)\<rparr>)
      (Some (blank_session\<lparr>totalTokens := JNum (Fin 700), updatedAt := JNum (Fin 3000)\<rparr>)))
     = JNum (Fin 700)
   \<and> updatedAt (mergeOpenClawParsedWithRegistry no_date
      (blank_session\<lparr>totalTokens := JNum (Fin 500), updatedAt := JNum (Fin 2000)\<rparr>)
      (Some (blank_session\<lparr>totalTokens := JNum (Fin 700), updatedAt := JNum (Fin 3000)\<rparr>)))
     = JNum (Fin 3000)"
  using merge_precedence [of "blank_session\<lparr>totalTokens := JNum (Fin 0)\<rparr>" 0 0 0 1000
      "blank_session\<lparr>totalTokens := JNum (Fin 500), updatedAt := JNum (Fin 2000)\<rparr>" 2000 no_date]
    merge_precedence [of "blank_session\<lparr>totalTokens := JNum (Fin 700), updatedAt := JNum (Fin 3000)\<rparr>"
      0 0 700 3000
      "blank_session\<lparr>totalTokens := JNum (Fin 500), updatedAt := JNum (Fin 2000)\<rparr>" 2000 no_date]
  by (simp add: blank_session_def)

section \<open>What the store keeps\<close>

lemma no_activity_session:
  "toNumber (totalTokens r) \<le> 0 \<Longrightarrow> toNumber (inputTokens r) \<le> 0 \<Longrightarrow> toNumber (outputTokens r) \<le> 0
   \<Longrightarrow> \<not> hasTokenActivity r"
  by (simp add: hasTokenActivity_def Let_def)

lemma prune_facts_active: "x \<in> set (session_fact (prune w d)) \<Longrightarrow> \<not> no_activity x"
  by (simp add: prune_def Let_def)

lemma prune_rollup_active: "x \<in> set (session_rollup (prune w d)) \<Longrightarrow> \<not> no_activity x"
  by (simp add: prune_def Let_def)

text \<open>
  Claim C10. \<^verbatim>\<open>upsertSession\<close> leaves the store as it is for every record whose
  three token counts are all zero or negative, whatever its model; and after an
  ingestion pass every row of the fact table and of the rollup table has at least
  one strictly positive token column, because the cleanup at the end of the pass
  deletes every other row.
\<close>

theorem stored_rows_have_activity:
  "(toNumber (totalTokens r) \<le> 0 \<and> toNumber (inputTokens r) \<le> 0 \<and> toNumber (outputTokens r) \<le> 0
      \<longrightarrow> upsertSession w r d = d)
   \<and> (\<forall>x \<in> set (session_fact (snd (ingestDashboardData w agents allSessionRecords d))).
         0 < total_tokens x \<or> 0 < input_tokens x \<or> 0 < output_tokens x)
   \<and> (\<forall>x \<in> set (session_rollup (snd (ingestDashboardData w agents allSessionRecords d))).
         0 < total_tokens x \<or> 0 < input_tokens x \<or> 0 < output_tokens x)"
proof (intro conjI impI ballI)
  assume "toNumber (totalTokens r) \<le> 0 \<and> toNumber (inputTokens r) \<le> 0 \<and> toNumber (outputTokens r) \<le> 0"
  then have "\<not> hasTokenActivity r" by (simp add: no_activity_session)
  then show "upsertSession w r d = d" by (simp add: upsertSession_def)
next
  fix x
  assume "x \<in> set (session_fact (snd (ingestDashboardData w agents allSessionRecords d)))"
  then have "x \<in> set (session_fact (prune w (ingest_files w agents allSessionRecords d)))"
    by (simp add: pass_store)
  then have "\<not> no_activity x" by (rule prune_facts_active)
  then show "0 < total_tokens x \<or> 0 < input_tokens x \<or> 0 < output_tokens x"
    by (auto simp: no_activity_def)
next
  fix x
  assume "x \<in> set (session_rollup (snd (ingestDashboardData w agents allSessionRecords d)))"
  then have "x \<in> set (session_rollup (prune w (ingest_files w agents allSessionRecords d)))"
    by (simp add: pass_store)
  then have "\<not> no_activity x" by (rule prune_rollup_active)
  then show "0 < total_tokens x \<or> 0 < input_tokens x \<or> 0 < output_tokens x"
    by (auto simp: no_activity_def)
qed

text \<open>
  A record with a known model and no tokens is skipped, and a pass over the sample
  store keeps only the row that has tokens and is recent.
\<close>

lemma quiet_pass_facts: "session_fact (snd (ingestDashboardData quiet_world [] [] sample_db)) = [live_row]"
  by (simp add: pass_store prune_def ingest_files_def Let_def
      quiet_world_def sample_db_def stat_files_def map_filter_simps SESSION_RETENTION_MS_def
      no_activity_def idle_row_def old_row_def live_row_def)

theorem stored_rows_have_activity_witness:
  "upsertSession quiet_world (blank_session\<lparr>model := JStr (str ''gpt'')\<rparr>) sample_db = sample_db
   \<and> session_fact (snd (ingestDashboardData quiet_world [] [] sample_db)) = [live_row]
   \<and> (0 < total_tokens live_row \<or> 0 < input_tokens live_row \<or> 0 < output_tokens live_row)"
proof -
  note inst = stored_rows_have_activity
    [of "blank_session\<lparr>model := JStr (str ''gpt'')\<rparr>" quiet_world sample_db "[]" "[]"]
  have a: "upsertSession quiet_world (blank_session\<lparr>model := JStr (str ''gpt'')\<rparr>) sample_db = sample_db"
    using inst by (simp add: blank_session_def toNumber_Fin)
  have "live_row \<in> set (session_fact (snd (ingestDashboardData quiet_world [] [] sample_db)))"
    by (simp add: quiet_pass_facts)
  with inst have "0 < total_tokens live_row \<or> 0 < input_tokens live_row \<or> 0 < output_tokens live_row"
    by blast
  with a quiet_pass_facts show ?thesis by simp
qed

section \<open>Noise records\<close>

lemma noise_no_activity:
  "inputTokens r = JNum (Fin 0) \<Longrightarrow> outputTokens r = JNum (Fin 0) \<Longrightarrow> totalTokens r = JNum (Fin 0)
   \<Longrightarrow> \<not> hasTokenActivity r"
  by (simp add: hasTokenActivity_def Let_def toNumber_Fin)

lemma usage_step_skip: "\<not> hasTokenActivity r \<Longrightarrow> usage_step w acc r = acc"
  by (cases acc) (simp_all add: usage_step_def)

text \<open>
  Claim C5. A record with \<^verbatim>\<open>inputTokens = outputTokens = totalTokens = 0\<close> and the
  model \<^verbatim>\<open>"Unknown"\<close> is never written by \<^verbatim>\<open>upsertSession\<close> (the store is returned
  as it was, fact and rollup tables included), and \<^verbatim>\<open>aggregateUsage\<close> gives the same
  totals, trend, model distribution, recent sessions and session points with the
  record in its input as without it.
\<close>

theorem noise_excluded:
  "inputTokens r = JNum (Fin 0) \<Longrightarrow> outputTokens r = JNum (Fin 0) \<Longrightarrow> totalTokens r = JNum (Fin 0)
   \<Longrightarrow> model r = JStr Unknown
   \<Longrightarrow> upsertSession w r d = d
       \<and> aggregateUsage w (xs @ r # ys) = aggregateUsage w (xs @ ys)"
proof -
  assume "inputTokens r = JNum (Fin 0)" "outputTokens r = JNum (Fin 0)" "totalTokens r = JNum (Fin 0)"
  then have idle: "\<not> hasTokenActivity r" by (rule noise_no_activity)
  then have "upsertSession w r d = d" by (simp add: upsertSession_def)
  moreover have "aggregateUsage w (xs @ r # ys) = aggregateUsage w (xs @ ys)"
    by (simp add: aggregateUsage_def usage_step_skip [OF idle])
  ultimately show ?thesis by simp
qed

text \<open>
  The noise record against the sample store, and alone in the aggregator's input.
\<close>

theorem noise_excluded_witness:
  "upsertSession quiet_world blank_session sample_db = sample_db
   \<and> aggregateUsage quiet_world ([] @ blank_session # []) = aggregateUsage quiet_world ([] @ [])"
  using noise_excluded [of blank_session quiet_world sample_db "[]" "[]"]
  by (simp add: blank_session_def)

section \<open>Conflicts of an upsert\<close>

lemma upsertRollup_conflict:
  "same_session old new \<Longrightarrow> \<forall>x \<in> set pre. \<not> same_session x new
   \<Longrightarrow> upsertRollup new (pre @ old # post) = pre @ new # post"
  by (induction pre) (auto simp: same_session_def)

lemma upsertFact_conflict:
  "same_session old new \<Longrightarrow> \<forall>x \<in> set pre. \<not> same_session x new
   \<Longrightarrow> upsertFact new (pre @ old # post) = pre @ fact_conflict old new # post"
  by (induction pre) auto

lemma same_session_truncate [simp]: "same_session x (rollup_row.truncate y) = same_session x y"
  by (simp add: same_session_def rollup_row.truncate_def)

lemma opt_string_falsy: "\<not> truthy v \<Longrightarrow> opt_string v = None"
  by (simp add: opt_string_def)

text \<open>
  Claim C9. When \<^verbatim>\<open>upsertSession\<close> writes a record whose \<open>(source, sessionId)\<close> is
  already stored, the rollup row becomes the incoming row in every column, and the
  fact row becomes the incoming row except that it keeps the stored label and
  source path when the incoming one is null or empty (falsy), and the stored input
  query when the incoming one normalizes to nothing; so an update with a null or
  empty \<^verbatim>\<open>inputQuery\<close>, as the registry loop sends it, leaves the stored query text
  as it was.
\<close>

theorem upsert_conflict:
  "truthy (sessionId row) \<Longrightarrow> hasTokenActivity row
   \<Longrightarrow> session_rollup d = rpre @ rold # rpost \<Longrightarrow> same_session rold (session_row w row)
   \<Longrightarrow> \<forall>x \<in> set rpre. \<not> same_session x (session_row w row)
   \<Longrightarrow> session_fact d = fpre @ fo # fpost \<Longrightarrow> same_session fo (session_row w row)
   \<Longrightarrow> \<forall>x \<in> set fpre. \<not> same_session x (session_row w row)
   \<Longrightarrow> session_rollup (upsertSession w row d) = rpre @ rollup_row.truncate (session_row w row) # rpost
       \<and> session_fact (upsertSession w row d) =
           fpre @ (session_row w row)
                    \<lparr>c_label := (if truthy (label row) then Some (to_str (label row)) else c_label fo),
                     input_query := (case normalizeQueryText (inputQuery row) 1200 of
                                       Some q \<Rightarrow> (if 0 < sql_length q then Some q else input_query fo)
                                     | None \<Rightarrow> input_query fo),
                     source_path := (if truthy (sourcePath row) then Some (to_str (sourcePath row))
                                     else source_path fo)\<rparr> # fpost
       \<and> (inputQuery row = JNull \<or> inputQuery row = JStr [] \<longrightarrow>
            (case normalizeQueryText (inputQuery row) 1200 of
               Some q \<Rightarrow> (if 0 < sql_length q then Some q else input_query fo)
             | None \<Rightarrow> input_query fo) = input_query fo)"
proof -
  assume gate: "truthy (sessionId row)" "hasTokenActivity row"
    and r: "session_rollup d = rpre @ rold # rpost" "same_session rold (session_row w row)"
      "\<forall>x \<in> set rpre. \<not> same_session x (session_row w row)"
    and f: "session_fact d = fpre @ fo # fpost" "same_session fo (session_row w row)"
      "\<forall>x \<in> set fpre. \<not> same_session x (session_row w row)"
  from gate have up: "upsertSession w row d =
      d\<lparr>session_rollup := upsertRollup (rollup_row.truncate (session_row w row)) (session_rollup d),
        session_fact := upsertFact (session_row w row) (session_fact d)\<rparr>"
    by (simp add: upsertSession_def isUnknownZeroNoiseRecord_def)
  have "session_rollup (upsertSession w row d) = rpre @ rollup_row.truncate (session_row w row) # rpost"
    using r by (simp add: up upsertRollup_conflict)
  moreover have "fact_conflict fo (session_row w row) =
      (session_row w row)
        \<lparr>c_label := (if truthy (label row) then Some (to_str (label row)) else c_label fo),
         input_query := (case normalizeQueryText (inputQuery row) 1200 of
                           Some q \<Rightarrow> (if 0 < sql_length q then Some q else input_query fo)
                         | None \<Rightarrow> input_query fo),
         source_path := (if truthy (sourcePath row) then Some (to_str (sourcePath row))
                         else source_path fo)\<rparr>"
    using f(2)
    by (cases fo) (auto simp: fact_conflict_def session_row_def Let_def same_session_def coalesce_def
        opt_string_def split: option.splits)
  then have "session_fact (upsertSession w row d) =
      fpre @ (session_row w row)
        \<lparr>c_label := (if truthy (label row) then Some (to_str (label row)) else c_label fo),
         input_query := (case normalizeQueryText (inputQuery row) 1200 of
                           Some q \<Rightarrow> (if 0 < sql_length q then Some q else input_query fo)
                         | None \<Rightarrow> input_query fo),
         source_path := (if truthy (sourcePath row) then Some (to_str (sourcePath row))
                         else source_path fo)\<rparr> # fpost"
    using f by (simp add: up upsertFact_conflict)
  moreover have "inputQuery row = JNull \<or> inputQuery row = JStr [] \<longrightarrow>
      (case normalizeQueryText (inputQuery row) 1200 of
         Some q \<Rightarrow> (if 0 < sql_length q then Some q else input_query fo)
       | None \<Rightarrow> input_query fo) = input_query fo"
    by (auto simp: nq_null nq_empty)
  ultimately show ?thesis by blast
qed


lemma session_row_update:
  "session_row quiet_world registry_update =
     \<lparr>c_source = openclaw, session_id = str ''s1'', agent_id = Some (str ''main''),
      c_model = str ''gpt-5'', updated_at = 1000, input_tokens = 0, output_tokens = 0,
      total_tokens = 9, c_label = None, input_query = None, source_path = None\<rparr>"
  by (simp add: session_row_def registry_update_def blank_session_def Let_def toNumber_Fin
      toTimestamp_def opt_string_def normalizeModelName_def or_else_def trim_def is_ws_def
      ws_ranges_def nq_null quiet_world_def openclaw_def codex_def str_def)

text \<open>
  The registry's update of the stored session \<open>s1\<close>: its columns are replaced,
  its label, query text and source path stay.
\<close>

theorem upsert_conflict_witness:
  "session_rollup (upsertSession quiet_world registry_update sample_db) =
     [rollup_row.truncate idle_row, rollup_row.truncate old_row,
      rollup_row.truncate (live_row\<lparr>c_model := str ''gpt-5'', updated_at := 1000, input_tokens := 0,
                                     output_tokens := 0, total_tokens := 9\<rparr>)]
   \<and> session_fact (upsertSession quiet_world registry_update sample_db) =
     [idle_row, old_row,
      live_row\<lparr>c_model := str ''gpt-5'', updated_at := 1000, input_tokens := 0,
                output_tokens := 0, total_tokens := 9\<rparr>]
   \<and> input_query (live_row\<lparr>c_model := str ''gpt-5'', updated_at := 1000, input_tokens := 0,
                output_tokens := 0, total_tokens := 9\<rparr>) = Some (str ''hello'')"
proof -
  have gate: "truthy (sessionId registry_update)" "hasTokenActivity registry_update"
    by (simp_all add: registry_update_def blank_session_def hasTokenActivity_def Let_def toNumber_Fin
        str_def)
  have keys: "same_session (rollup_row.truncate live_row) (session_row quiet_world registry_update)"
    "\<forall>x \<in> set [rollup_row.truncate idle_row, rollup_row.truncate old_row].
        \<not> same_session x (session_row quiet_world registry_update)"
    "same_session live_row (session_row quiet_world registry_update)"
    "\<forall>x \<in> set [idle_row, old_row]. \<not> same_session x (session_row quiet_world registry_update)"
    by (simp_all add: session_row_update same_session_def rollup_row.truncate_def live_row_def
        idle_row_def old_row_def str_def)
  have tables: "session_rollup sample_db =
      [rollup_row.truncate idle_row, rollup_row.truncate old_row] @ rollup_row.truncate live_row # []"
    "session_fact sample_db = [idle_row, old_row] @ live_row # []"
    by (simp_all add: sample_db_def)
  have fields: "label registry_update = JNull" "inputQuery registry_update = JNull"
    "sourcePath registry_update = JNull"
    by (simp_all add: registry_update_def blank_session_def)
  from upsert_conflict [OF gate tables(1) keys(1) keys(2) tables(2) keys(3) keys(4)]
  show ?thesis
    by (simp add: session_row_update fields nq_null live_row_def idle_row_def old_row_def
        rollup_row.truncate_def)
qed

section \<open>The rebuilt daily buckets\<close>

lemma bucket_key_add [simp]:
  "bucket_key (b\<lparr>d_input_tokens := i, d_output_tokens := out, d_total_tokens := t, d_sessions := n\<rparr>)
     = bucket_key b"
  by (simp add: bucket_key_def)

lemma keys_add_to_bucket:
  "map bucket_key (add_to_bucket r bs) =
     (if daily_key r \<in> set (map bucket_key bs) then map bucket_key bs
      else map bucket_key bs @ [daily_key r])"
  by (induction bs) (auto simp: bucket_key_def daily_key_def)

lemma sum_add_to_bucket:
  "sum_list (map d_total_tokens (filter (\<lambda>b. bucket_key b = k) (add_to_bucket r bs))) =
     sum_list (map d_total_tokens (filter (\<lambda>b. bucket_key b = k) bs))
       + (if daily_key r = k then total_tokens r else 0)"
  "sum_list (map d_input_tokens (filter (\<lambda>b. bucket_key b = k) (add_to_bucket r bs))) =
     sum_list (map d_input_tokens (filter (\<lambda>b. bucket_key b = k) bs))
       + (if daily_key r = k then input_tokens r else 0)"
  "sum_list (map d_output_tokens (filter (\<lambda>b. bucket_key b = k) (add_to_bucket r bs))) =
     sum_list (map d_output_tokens (filter (\<lambda>b. bucket_key b = k) bs))
       + (if daily_key r = k then output_tokens r else 0)"
  "sum_list (map d_sessions (filter (\<lambda>b. bucket_key b = k) (add_to_bucket r bs))) =
     sum_list (map d_sessions (filter (\<lambda>b. bucket_key b = k) bs))
       + (if daily_key r = k then 1 else 0)"
  by (induction bs; auto simp: bucket_key_def daily_key_def)+

lemma keys_fold_buckets:
  "distinct (map bucket_key (foldl (\<lambda>bs r. add_to_bucket r bs) [] xs))
   \<and> set (map bucket_key (foldl (\<lambda>bs r. add_to_bucket r bs) [] xs)) = daily_key ` set xs"
  by (induction xs rule: rev_induct) (auto simp: keys_add_to_bucket)

lemma sum_fold_buckets:
  "sum_list (map d_total_tokens (filter (\<lambda>b. bucket_key b = k) (foldl (\<lambda>bs r. add_to_bucket r bs) [] xs)))
     = sum_list (map total_tokens (filter (\<lambda>r. daily_key r = k) xs))"
  "sum_list (map d_input_tokens (filter (\<lambda>b. bucket_key b = k) (foldl (\<lambda>bs r. add_to_bucket r bs) [] xs)))
     = sum_list (map input_tokens (filter (\<lambda>r. daily_key r = k) xs))"
  "sum_list (map d_output_tokens (filter (\<lambda>b. bucket_key b = k) (foldl (\<lambda>bs r. add_to_bucket r bs) [] xs)))
     = sum_list (map output_tokens (filter (\<lambda>r. daily_key r = k) xs))"
  "sum_list (map d_sessions (filter (\<lambda>b. bucket_key b = k) (foldl (\<lambda>bs r. add_to_bucket r bs) [] xs)))
     = int (length (filter (\<lambda>r. daily_key r = k) xs))"
  by (induction xs rule: rev_induct; simp add: sum_add_to_bucket)+

lemma filter_own_key:
  "distinct (map f xs) \<Longrightarrow> x \<in> set xs \<Longrightarrow> filter (\<lambda>y. f y = f x) xs = [x]"
proof (induction xs)
  case Nil
  then show ?case by simp
next
  case (Cons a xs)
  show ?case
  proof (cases "a = x")
    case True
    with Cons.prems have "\<forall>y \<in> set xs. f y \<noteq> f x" by (auto simp: image_iff)
    then have "filter (\<lambda>y. f y = f x) xs = []" by (simp add: filter_empty_conv)
    with True show ?thesis by simp
  next
    case False
    with Cons.prems have "x \<in> set xs" "f a \<noteq> f x" by (auto simp: image_iff)
    with Cons show ?thesis by simp
  qed
qed

lemma matching_rows_filter:
  "matching_rows k rows = filter (\<lambda>r. daily_key r = k) (filter (\<lambda>r. 0 < total_tokens r) rows)"
  by (simp add: matching_rows_def conj_commute)

lemma prefix_fits:
  "\<bar>acc\<bar> + sum_list (map abs vs) < 9223372036854775808 \<Longrightarrow> \<not> prefix_overflow acc vs"
proof (induction vs arbitrary: acc)
  case Nil
  show ?case by simp
next
  case (Cons v vs)
  have "0 \<le> sum_list (map abs vs)" by (rule sum_list_nonneg) auto
  with Cons.prems have range: "- 9223372036854775808 \<le> acc + v" "acc + v < 9223372036854775808"
    by simp_all
  from Cons.prems have "\<bar>acc + v\<bar> + sum_list (map abs vs) < 9223372036854775808" by simp
  then have "\<not> prefix_overflow (acc + v) vs" by (rule Cons.IH)
  with range show ?case by simp
qed

lemma sum_abs_filter:
  "sum_list (map (\<lambda>r. \<bar>f r\<bar>) (filter P xs)) \<le> sum_list (map (\<lambda>r. \<bar>f r :: int\<bar>) xs)"
  by (induction xs) auto

lemma group_fits:
  assumes "sum_list (map (\<lambda>r. \<bar>f r\<bar>) rows) < 9223372036854775808"
  shows "\<not> sum_overflows (map f (filter P rows))"
proof -
  have "sum_list (map abs (map f (filter P rows))) = sum_list (map (\<lambda>r. \<bar>f r\<bar>) (filter P rows))"
    by (simp add: comp_def)
  with sum_abs_filter [of f P rows] assms
  have "\<bar>0\<bar> + sum_list (map abs (map f (filter P rows))) < 9223372036854775808" by simp
  then have "\<not> prefix_overflow 0 (map f (filter P rows))" by (rule prefix_fits)
  then show ?thesis by (simp add: sum_overflows_def)
qed

lemma insert_succeeds:
  assumes "\<forall>r \<in> set rows. day_of (updated_at r) \<noteq> None"
    and "sum_list (map (\<lambda>r. \<bar>input_tokens r\<bar>) rows) < 9223372036854775808"
    and "sum_list (map (\<lambda>r. \<bar>output_tokens r\<bar>) rows) < 9223372036854775808"
    and "sum_list (map (\<lambda>r. \<bar>total_tokens r\<bar>) rows) < 9223372036854775808"
  shows "\<not> insert_fails rows"
  using assms(1) group_fits [OF assms(2)] group_fits [OF assms(3)] group_fits [OF assms(4)]
  by (simp add: insert_fails_def list_ex_iff Let_def)

text \<open>
  Claim C4, as the code has it. \<^verbatim>\<open>rebuildTokenDaily\<close> empties the daily-bucket table
  and refills it with one \<^verbatim>\<open>INSERT\<close>, which SQLite refuses when a stored session row
  with strictly positive total tokens has an \<^verbatim>\<open>updated_at\<close> that is no date for it
  (after the year 9999, say), or when a sum overflows. When the rebuild throws
  nothing, the table has one row for each key \<open>(day, source, model)\<close> that some stored
  session row with strictly positive total tokens has, and no other row, and the
  bucket's \<^verbatim>\<open>total_tokens\<close>, \<^verbatim>\<open>input_tokens\<close>, \<^verbatim>\<open>output_tokens\<close> and \<^verbatim>\<open>sessions\<close> are the
  sums of the token columns over, and the number of, exactly the stored session
  rows that match the key and have strictly positive total tokens. It throws nothing
  when each of these rows has a day and their token counts, in absolute value, add
  up to less than \<open>2\<^sup>6\<^sup>3\<close>. When it throws, the table is left empty. What the table
  held before has no influence.
\<close>

theorem rebuilt_buckets_are_sums:
  "(fst (rebuildTokenDaily d) = None \<longrightarrow>
      distinct (map bucket_key (token_daily (snd (rebuildTokenDaily d))))
      \<and> set (map bucket_key (token_daily (snd (rebuildTokenDaily d))))
          = daily_key ` {r \<in> set (session_rollup d). 0 < total_tokens r}
      \<and> (\<forall>b \<in> set (token_daily (snd (rebuildTokenDaily d))).
            d_total_tokens b = sum_list (map total_tokens (matching_rows (bucket_key b) (session_rollup d)))
          \<and> d_input_tokens b = sum_list (map input_tokens (matching_rows (bucket_key b) (session_rollup d)))
          \<and> d_output_tokens b = sum_list (map output_tokens (matching_rows (bucket_key b) (session_rollup d)))
          \<and> d_sessions b = int (length (matching_rows (bucket_key b) (session_rollup d)))))
   \<and> ((\<forall>r \<in> set (session_rollup d). 0 < total_tokens r \<longrightarrow> day_of (updated_at r) \<noteq> None)
       \<and> sum_list (map (\<lambda>r. \<bar>input_tokens r\<bar>) (filter (\<lambda>r. 0 < total_tokens r) (session_rollup d)))
           < 9223372036854775808
       \<and> sum_list (map (\<lambda>r. \<bar>output_tokens r\<bar>) (filter (\<lambda>r. 0 < total_tokens r) (session_rollup d)))
           < 9223372036854775808
       \<and> sum_list (map (\<lambda>r. \<bar>total_tokens r\<bar>) (filter (\<lambda>r. 0 < total_tokens r) (session_rollup d)))
           < 9223372036854775808
       \<longrightarrow> fst (rebuildTokenDaily d) = None)
   \<and> (fst (rebuildTokenDaily d) \<noteq> None \<longrightarrow>
        fst (rebuildTokenDaily d) = Some SqliteError \<and> token_daily (snd (rebuildTokenDaily d)) = [])
   \<and> rebuildTokenDaily (d\<lparr>token_daily := before\<rparr>) = rebuildTokenDaily d"
proof (intro conjI impI ballI)
  let ?xs = "filter (\<lambda>r. 0 < total_tokens r) (session_rollup d)"
  let ?bs = "foldl (\<lambda>bs r. add_to_bucket r bs) [] ?xs"
  show "rebuildTokenDaily (d\<lparr>token_daily := before\<rparr>) = rebuildTokenDaily d"
    by (simp add: rebuildTokenDaily_def)
  {
    assume "fst (rebuildTokenDaily d) \<noteq> None"
    then have "insert_fails ?xs" by (auto simp: rebuildTokenDaily_def Let_def split: if_splits)
    then have thrown: "rebuildTokenDaily d = (Some SqliteError, d\<lparr>token_daily := []\<rparr>)"
      by (rule rebuild_thrown)
    from thrown show "fst (rebuildTokenDaily d) = Some SqliteError" by simp
    from thrown show "token_daily (snd (rebuildTokenDaily d)) = []" by simp
  }
  {
    assume "(\<forall>r \<in> set (session_rollup d). 0 < total_tokens r \<longrightarrow> day_of (updated_at r) \<noteq> None)
       \<and> sum_list (map (\<lambda>r. \<bar>input_tokens r\<bar>) ?xs) < 9223372036854775808
       \<and> sum_list (map (\<lambda>r. \<bar>output_tokens r\<bar>) ?xs) < 9223372036854775808
       \<and> sum_list (map (\<lambda>r. \<bar>total_tokens r\<bar>) ?xs) < 9223372036854775808"
    then have "\<not> insert_fails ?xs" by (intro insert_succeeds) simp_all
    then show "fst (rebuildTokenDaily d) = None" by (simp add: rebuild_done)
  }
  assume "fst (rebuildTokenDaily d) = None"
  then have "\<not> insert_fails ?xs" by (auto simp: rebuildTokenDaily_def Let_def split: if_splits)
  then have td: "token_daily (snd (rebuildTokenDaily d)) = ?bs" by (simp add: rebuild_done)
  show dist: "distinct (map bucket_key (token_daily (snd (rebuildTokenDaily d))))"
    unfolding td using keys_fold_buckets [of ?xs] by blast
  show "set (map bucket_key (token_daily (snd (rebuildTokenDaily d))))
       = daily_key ` {r \<in> set (session_rollup d). 0 < total_tokens r}"
    unfolding td using keys_fold_buckets [of ?xs] by simp
  fix b
  assume "b \<in> set (token_daily (snd (rebuildTokenDaily d)))"
  then have own: "filter (\<lambda>y. bucket_key y = bucket_key b) ?bs = [b]"
    using dist unfolding td by (intro filter_own_key)
  show "d_total_tokens b = sum_list (map total_tokens (matching_rows (bucket_key b) (session_rollup d)))"
    using sum_fold_buckets(1) [of "bucket_key b" ?xs] by (simp add: own matching_rows_filter)
  show "d_input_tokens b = sum_list (map input_tokens (matching_rows (bucket_key b) (session_rollup d)))"
    using sum_fold_buckets(2) [of "bucket_key b" ?xs] by (simp add: own matching_rows_filter)
  show "d_output_tokens b = sum_list (map output_tokens (matching_rows (bucket_key b) (session_rollup d)))"
    using sum_fold_buckets(3) [of "bucket_key b" ?xs] by (simp add: own matching_rows_filter)
  show "d_sessions b = int (length (matching_rows (bucket_key b) (session_rollup d)))"
    using sum_fold_buckets(4) [of "bucket_key b" ?xs] by (simp add: own matching_rows_filter)
qed

lemma rebuilt_sample:
  "rebuildTokenDaily sample_db = (None, sample_db\<lparr>token_daily := [old_bucket, live_bucket]\<rparr>)"
proof -
  have "\<not> insert_fails (filter (\<lambda>r. 0 < total_tokens r) (session_rollup sample_db))"
    by (simp add: rebuild_eval sample_db_def idle_row_def old_row_def live_row_def
        rollup_row.truncate_def str_def openclaw_def)
  from rebuild_done [OF this] show ?thesis
    by (simp add: rebuild_eval sample_db_def idle_row_def old_row_def live_row_def
        rollup_row.truncate_def old_bucket_def live_bucket_def str_def openclaw_def)
qed

text \<open>
  The sample store: the rebuild throws nothing, the row without tokens is in no
  bucket, and each bucket holds the one row of its day.
\<close>

theorem rebuilt_buckets_are_sums_witness:
  "fst (rebuildTokenDaily sample_db) = None
   \<and> token_daily (snd (rebuildTokenDaily sample_db)) = [old_bucket, live_bucket]
   \<and> sum_list (map (\<lambda>r. \<bar>total_tokens r\<bar>) (filter (\<lambda>r. 0 < total_tokens r) (session_rollup sample_db))) = 17
   \<and> d_total_tokens live_bucket
       = sum_list (map total_tokens (matching_rows (bucket_key live_bucket) (session_rollup sample_db)))
   \<and> d_total_tokens live_bucket = 7
   \<and> d_sessions old_bucket = int (length (matching_rows (bucket_key old_bucket) (session_rollup sample_db)))"
proof -
  have complete: "fst (rebuildTokenDaily sample_db) = None"
    and table: "token_daily (snd (rebuildTokenDaily sample_db)) = [old_bucket, live_bucket]"
    by (simp_all add: rebuilt_sample)
  have sums: "sum_list (map (\<lambda>r. \<bar>total_tokens r\<bar>) (filter (\<lambda>r. 0 < total_tokens r) (session_rollup sample_db))) = 17"
    "sum_list (map (\<lambda>r. \<bar>input_tokens r\<bar>) (filter (\<lambda>r. 0 < total_tokens r) (session_rollup sample_db))) = 7"
    "sum_list (map (\<lambda>r. \<bar>output_tokens r\<bar>) (filter (\<lambda>r. 0 < total_tokens r) (session_rollup sample_db))) = 10"
    "\<forall>r \<in> set (session_rollup sample_db). 0 < total_tokens r \<longrightarrow> day_of (updated_at r) \<noteq> None"
    by (simp_all add: sample_db_def idle_row_def old_row_def live_row_def rollup_row.truncate_def
          day_of_def sql_div_def)
  have "live_bucket \<in> set (token_daily (snd (rebuildTokenDaily sample_db)))"
    "old_bucket \<in> set (token_daily (snd (rebuildTokenDaily sample_db)))"
    by (simp_all add: table)
  with rebuilt_buckets_are_sums [of sample_db "[]"] complete table sums show ?thesis
    by (simp add: live_bucket_def)
qed

text \<open>
  Claim C4, as the specification has it, fails where the rebuild throws. The
  registry names a session \<open>s2\<close> with 9 tokens and a timestamp in the year 10000. The
  pass stores it beside the recent row of the sample store, and the rebuild, having
  emptied the table, cannot insert the day of the new row: the pass throws, and the
  table has no bucket for the recent row either, whose key has 7 tokens in the
  stored session rows.
\<close>

lemma future_upsert:
  "upsertSession quiet_world (registry_row future_record) d =
     d\<lparr>session_rollup := upsertRollup (rollup_row.truncate future_fact) (session_rollup d),
       session_fact := upsertFact future_fact (session_fact d)\<rparr>"
proof -
  have "session_row quiet_world (registry_row future_record) = future_fact"
    by (simp add: session_row_def registry_row_def future_record_def blank_session_def Let_def
        toNumber_Fin toTimestamp_def opt_string_def normalizeModelName_def or_else_def trim_def
        is_ws_def ws_ranges_def nq_null future_fact_def openclaw_def codex_def str_def)
  moreover have "truthy (sessionId (registry_row future_record))"
    "hasTokenActivity (registry_row future_record)"
    "\<not> isUnknownZeroNoiseRecord (registry_row future_record)"
    by (simp_all add: registry_row_def future_record_def blank_session_def hasTokenActivity_def
          isUnknownZeroNoiseRecord_def Let_def toNumber_Fin str_def)
  ultimately show ?thesis by (simp add: upsertSession_def)
qed

lemma future_pass:
  "ingestDashboardData quiet_world [] [future_record] sample_db =
     (Some SqliteError,
      \<lparr>session_rollup = [rollup_row.truncate live_row, rollup_row.truncate future_fact],
       session_fact = [live_row, future_fact], token_daily = [], ingest_file = []\<rparr>)"
proof -
  have "ingest_files quiet_world [] [future_record] sample_db =
      sample_db\<lparr>session_rollup := upsertRollup (rollup_row.truncate future_fact) (session_rollup sample_db),
                session_fact := upsertFact future_fact (session_fact sample_db)\<rparr>"
    unfolding ingest_files_def Let_def foldl.simps future_upsert
    by (simp add: quiet_world_def stat_files_def map_filter_simps)
  then have store: "prune quiet_world (ingest_files quiet_world [] [future_record] sample_db) =
      \<lparr>session_rollup = [rollup_row.truncate live_row, rollup_row.truncate future_fact],
       session_fact = [live_row, future_fact], token_daily = [old_bucket], ingest_file = []\<rparr>"
    by (simp add: prune_def Let_def sample_db_def same_session_def
        idle_row_def old_row_def live_row_def future_fact_def SESSION_RETENTION_MS_def
        no_activity_def rollup_row.truncate_def quiet_world_def str_def openclaw_def)
  have "insert_fails (filter (\<lambda>r. 0 < total_tokens r)
      [rollup_row.truncate live_row, rollup_row.truncate future_fact])"
    by (simp add: rebuild_eval live_row_def future_fact_def rollup_row.truncate_def)
  with pass_thrown [OF store] show ?thesis by simp
qed

theorem rebuild_throws_counterexample:
  "fst (ingestDashboardData quiet_world [] [future_record] sample_db) = Some SqliteError
   \<and> token_daily (snd (ingestDashboardData quiet_world [] [future_record] sample_db)) = []
   \<and> matching_rows (Some 92, openclaw, str ''gpt'')
        (session_rollup (snd (ingestDashboardData quiet_world [] [future_record] sample_db)))
       = [rollup_row.truncate live_row]
   \<and> total_tokens live_row = 7"
  unfolding future_pass
  by (simp add: matching_rows_def daily_key_def day_of_def sql_div_def daily_model_def sql_trim_def
      live_row_def future_fact_def rollup_row.truncate_def str_def openclaw_def)

section \<open>Retention\<close>

lemma retention_removes_old_rows:
  "(\<forall>x \<in> set (session_fact (snd (ingestDashboardData w agents allSessionRecords d))).
      now w - SESSION_RETENTION_MS w \<le> updated_at x)
   \<and> (\<forall>x \<in> set (session_rollup (snd (ingestDashboardData w agents allSessionRecords d))).
      now w - SESSION_RETENTION_MS w \<le> updated_at x)"
  by (auto simp: pass_store prune_def Let_def)

text \<open>
  Claim C1, evaluated on the sample store. Its row \<open>old\<close> was updated on day 1, more
  than 90 days before the pass, and the daily-bucket table holds the bucket of that
  day. After the pass the row is gone from the fact and rollup tables, as the claim
  says; but the bucket of day 1 is gone as well: \<^verbatim>\<open>rebuildTokenDaily\<close> empties the
  daily-bucket table and refills it from the rollup rows that retention has left.
  The pass throws nothing.
\<close>

theorem retention_pass_drops_old_bucket:
  "fst (ingestDashboardData quiet_world [] [] sample_db) = None
   \<and> token_daily sample_db = [old_bucket]
   \<and> d_day old_bucket = day_of (updated_at old_row)
   \<and> updated_at old_row < now quiet_world - SESSION_RETENTION_MS quiet_world
   \<and> session_fact (snd (ingestDashboardData quiet_world [] [] sample_db)) = [live_row]
   \<and> session_rollup (snd (ingestDashboardData quiet_world [] [] sample_db)) = [rollup_row.truncate live_row]
   \<and> token_daily (snd (ingestDashboardData quiet_world [] [] sample_db)) = [live_bucket]"
proof -
  have store: "prune quiet_world (ingest_files quiet_world [] [] sample_db) =
      \<lparr>session_rollup = [rollup_row.truncate live_row], session_fact = [live_row],
       token_daily = [old_bucket], ingest_file = []\<rparr>"
    by (simp add: prune_def ingest_files_def Let_def quiet_world_def sample_db_def stat_files_def
        map_filter_simps SESSION_RETENTION_MS_def no_activity_def idle_row_def old_row_def
        live_row_def rollup_row.truncate_def)
  have "\<not> insert_fails (filter (\<lambda>r. 0 < total_tokens r) [rollup_row.truncate live_row])"
    by (simp add: rebuild_eval live_row_def rollup_row.truncate_def)
  with pass_done [OF store]
  have "ingestDashboardData quiet_world [] [] sample_db =
      (None, \<lparr>session_rollup = [rollup_row.truncate live_row], session_fact = [live_row],
              token_daily = [live_bucket], ingest_file = []\<rparr>)"
    by (simp add: rebuild_eval live_row_def live_bucket_def rollup_row.truncate_def str_def
        openclaw_def)
  then show ?thesis
    by (simp add: sample_db_def old_bucket_def old_row_def day_of_def sql_div_def
        quiet_world_def SESSION_RETENTION_MS_def)
qed

section \<open>Token counts of the decoders\<close>

lemma bump_tokens [simp]:
  "ps_inputTokens (bump_updatedAt dp ts st) = ps_inputTokens st"
  "ps_outputTokens (bump_updatedAt dp ts st) = ps_outputTokens st"
  "ps_totalTokens (bump_updatedAt dp ts st) = ps_totalTokens st"
  by (simp_all add: bump_updatedAt_def)

lemma type_names [simp]:
  "str ''message'' \<noteq> str ''session''" "str ''message'' \<noteq> str ''model_change''"
  "str ''assistant'' \<noteq> str ''user''"
  "str ''event_msg'' \<noteq> str ''session_meta''" "str ''event_msg'' \<noteq> str ''turn_context''"
  "str ''event_msg'' \<noteq> str ''response_item''"
  by (simp_all add: str_def)

lemma openclaw_line_tokens:
  "ps_inputTokens (openclaw_line dp st line) = ps_inputTokens st +
     (case line of None \<Rightarrow> 0 | Some row \<Rightarrow> if is_assistant_message row then reported_input row else 0)"
  "ps_outputTokens (openclaw_line dp st line) = ps_outputTokens st +
     (case line of None \<Rightarrow> 0 | Some row \<Rightarrow> if is_assistant_message row then reported_output row else 0)"
  "ps_totalTokens (openclaw_line dp st line) = ps_totalTokens st +
     (case line of None \<Rightarrow> 0 | Some row \<Rightarrow> if is_assistant_message row then reported_total row else 0)"
  by (auto simp: openclaw_line_def Let_def is_assistant_message_def message_of_def usage_of_def
      reported_input_def reported_output_def reported_total_def split: option.splits)

lemma openclaw_fold_tokens:
  "ps_inputTokens (foldl (openclaw_line dp) st lines)
     = ps_inputTokens st + sum_list (map reported_input (assistant_rows lines))"
  "ps_outputTokens (foldl (openclaw_line dp) st lines)
     = ps_outputTokens st + sum_list (map reported_output (assistant_rows lines))"
  "ps_totalTokens (foldl (openclaw_line dp) st lines)
     = ps_totalTokens st + sum_list (map reported_total (assistant_rows lines))"
  by (induction lines arbitrary: st;
      simp add: openclaw_line_tokens assistant_rows_def parsed_lines_def
        split: option.splits)+

lemma codex_line_tokens:
  "ps_inputTokens (codex_line dp st line) =
     (case line of None \<Rightarrow> ps_inputTokens st
      | Some row \<Rightarrow> if is_token_count row then codex_input row else ps_inputTokens st)"
  "ps_outputTokens (codex_line dp st line) =
     (case line of None \<Rightarrow> ps_outputTokens st
      | Some row \<Rightarrow> if is_token_count row then codex_output row else ps_outputTokens st)"
  "ps_totalTokens (codex_line dp st line) =
     (case line of None \<Rightarrow> ps_totalTokens st
      | Some row \<Rightarrow> if is_token_count row then codex_total row else ps_totalTokens st)"
  by (auto simp: codex_line_def Let_def is_token_count_def total_usage_def codex_input_def
      codex_output_def codex_total_def split: option.splits)

lemma codex_fold_tokens:
  "ps_inputTokens (foldl (codex_line dp) st lines) =
     (if token_count_rows lines = [] then ps_inputTokens st
      else codex_input (last (token_count_rows lines)))"
  "ps_outputTokens (foldl (codex_line dp) st lines) =
     (if token_count_rows lines = [] then ps_outputTokens st
      else codex_output (last (token_count_rows lines)))"
  "ps_totalTokens (foldl (codex_line dp) st lines) =
     (if token_count_rows lines = [] then ps_totalTokens st
      else codex_total (last (token_count_rows lines)))"
  by (induction lines rule: rev_induct;
      simp add: codex_line_tokens token_count_rows_def parsed_lines_def split: option.splits)+


text \<open>
  Claim C8, as the code has it. The OpenClaw decoder adds, for every assistant-role
  message of the file, the reported input plus cache-read plus cache-write to the
  input count, the reported output to the output count, and the reported total (or
  input plus output when the reported total is absent or zero) to the total count:
  the decoded counts are the sums over those messages. The Codex decoder does not
  add: every usage-report record overwrites the three counts with the totals it
  reports (input without cache sub-fields, output, and total or input plus output),
  so the decoded counts are those of the last usage-report record of the file, and
  zero when there is none.
\<close>

theorem decoded_token_counts:
  "(parseOpenClawSessionFile w filePath agent stat = Some r \<and> readFile w filePath = Some lines \<longrightarrow>
      inputTokens r = JNum (Fin (sum_list (map reported_input (assistant_rows lines))))
    \<and> outputTokens r = JNum (Fin (sum_list (map reported_output (assistant_rows lines))))
    \<and> totalTokens r = JNum (Fin (sum_list (map reported_total (assistant_rows lines)))))
   \<and> (parseCodexSessionFile w filePath stat = Some r' \<and> readFile w filePath = Some lines \<longrightarrow>
      inputTokens r' = JNum (Fin (if token_count_rows lines = [] then 0
                                  else codex_input (last (token_count_rows lines))))
    \<and> outputTokens r' = JNum (Fin (if token_count_rows lines = [] then 0
                                   else codex_output (last (token_count_rows lines))))
    \<and> totalTokens r' = JNum (Fin (if token_count_rows lines = [] then 0
                                  else codex_total (last (token_count_rows lines)))))"
  by (auto simp: parseOpenClawSessionFile_def parseCodexSessionFile_def Let_def
      openclaw_fold_tokens codex_fold_tokens split: if_splits)

lemma codex_decoded_output:
  "parseCodexSessionFile w filePath stat = Some r' \<Longrightarrow> readFile w filePath = Some lines \<Longrightarrow>
   outputTokens r' = JNum (Fin (if token_count_rows lines = [] then 0
                                else codex_output (last (token_count_rows lines))))"
  by (auto simp: parseCodexSessionFile_def Let_def codex_fold_tokens split: if_splits)

lemma sample_logs:
  "readFile log_world openclaw_log = Some [session_line, assistant_line, None, assistant_line]"
  "readFile log_world codex_log = Some [token_count_line, token_count_line]"
  by (simp_all add: log_world_def log_content_def openclaw_log_def codex_log_def str_def)

lemma sample_rows:
  "assistant_rows [session_line, assistant_line, None, assistant_line]
     = [the assistant_line, the assistant_line]"
  "token_count_rows [token_count_line, token_count_line] = [the token_count_line, the token_count_line]"
  "reported_output (the assistant_line) = 5"
  "codex_output (the token_count_line) = 5"
  by (simp_all add: assistant_rows_def token_count_rows_def parsed_lines_def assistant_line_def
      session_line_def token_count_line_def is_assistant_message_def is_token_count_def
      message_of_def usage_of_def total_usage_def reported_output_def codex_output_def or_else_def
      toNumber_Fin str_def)

lemma session_line_id:
  "ps_sessionId (openclaw_line dp st session_line) = JStr (str ''s1'')"
  by (simp add: openclaw_line_def session_line_def Let_def bump_updatedAt_def str_def)

lemma openclaw_line_keeps_id:
  "ps_sessionId (openclaw_line dp st assistant_line) = ps_sessionId st"
  "ps_sessionId (openclaw_line dp st None) = ps_sessionId st"
  by (simp_all add: openclaw_line_def assistant_line_def Let_def bump_updatedAt_def or_else_def str_def)

lemma parsed_sample_openclaw:
  "parseOpenClawSessionFile log_world openclaw_log (str ''main'') log_stat \<noteq> None"
  by (simp add: parseOpenClawSessionFile_def sample_logs Let_def session_line_id
      openclaw_line_keeps_id str_def)

lemma parsed_sample_codex:
  "parseCodexSessionFile log_world codex_log log_stat \<noteq> None"
  by (simp add: parseCodexSessionFile_def sample_logs Let_def)

text \<open>
  The two sample logs: the OpenClaw decoder adds the two outputs of 5, the Codex
  decoder keeps the last reported total of 5.
\<close>

theorem decoded_token_counts_witness:
  "map_option outputTokens (parseOpenClawSessionFile log_world openclaw_log (str ''main'') log_stat)
     = Some (JNum (Fin 10))
   \<and> map_option outputTokens (parseCodexSessionFile log_world codex_log log_stat)
     = Some (JNum (Fin 5))"
proof -
  from parsed_sample_openclaw obtain r
    where r: "parseOpenClawSessionFile log_world openclaw_log (str ''main'') log_stat = Some r"
    by blast
  from parsed_sample_codex obtain r'
    where r': "parseCodexSessionFile log_world codex_log log_stat = Some r'"
    by blast
  from decoded_token_counts
    [of log_world openclaw_log "str ''main''" log_stat r
        "[session_line, assistant_line, None, assistant_line]"] r sample_logs(1)
  have "outputTokens r = JNum (Fin 10)" by (simp add: sample_rows)
  moreover from decoded_token_counts
    [of log_world codex_log _ log_stat _ "[token_count_line, token_count_line]" r'] r' sample_logs(2)
  have "outputTokens r' = JNum (Fin 5)" by (simp add: sample_rows)
  ultimately show ?thesis by (simp add: r r')
qed

text \<open>
  The claim as written fails for the Codex decoder: of two usage-report records
  it does not return the sum of what they report.
\<close>

theorem codex_counts_counterexample:
  "map_option outputTokens (parseCodexSessionFile log_world codex_log log_stat)
     \<noteq> Some (JNum (Fin (sum_list (map codex_output
            (token_count_rows [token_count_line, token_count_line])))))"
proof -
  from parsed_sample_codex obtain r'
    where r': "parseCodexSessionFile log_world codex_log log_stat = Some r'"
    by blast
  from codex_decoded_output [OF r' sample_logs(2)] have "outputTokens r' = JNum (Fin 5)"
    by (simp add: sample_rows)
  then show ?thesis by (simp add: r' sample_rows)
qed

section \<open>Redaction applied twice\<close>

lemma mask_long:
  "8 < length s \<Longrightarrow> maskSecret (JStr (maskSecret (JStr s))) = maskSecret (JStr s)"
  by (simp add: maskSecret_def str_def)

lemma mask_twice_stable:
  "maskSecret (JStr (maskSecret (JStr (maskSecret v)))) = maskSecret (JStr (maskSecret v))"
proof (cases "\<exists>s. v = JStr s \<and> 8 < length s")
  case True
  then obtain s where "v = JStr s" "8 < length s" by blast
  then show ?thesis by (simp add: mask_long)
next
  case False
  then have "maskSecret v = REDACTED" by (cases v) (auto simp: maskSecret_def)
  then show ?thesis by (simp add: maskSecret_def REDACTED_def str_def)
qed

lemma redact_thrice: "redactObject (redactObject (redactObject v)) = redactObject (redactObject v)"
proof (induction v rule: redactObject.induct)
  case (1 vs)
  then show ?case by simp
next
  case (2 kvs)
  have "(case (case (case kv of (k, v) \<Rightarrow> (k, if re_test True SENSITIVE_KEY_RE k
                               then JStr (maskSecret (JStr (to_str v)))
                               else redactObject v)) of (k, v) \<Rightarrow> (k, if re_test True SENSITIVE_KEY_RE k
                               then JStr (maskSecret (JStr (to_str v)))
                               else redactObject v)) of (k, v) \<Rightarrow> (k, if re_test True SENSITIVE_KEY_RE k
                               then JStr (maskSecret (JStr (to_str v)))
                               else redactObject v))
      = (case (case kv of (k, v) \<Rightarrow> (k, if re_test True SENSITIVE_KEY_RE k
                               then JStr (maskSecret (JStr (to_str v)))
                               else redactObject v)) of (k, v) \<Rightarrow> (k, if re_test True SENSITIVE_KEY_RE k
                               then JStr (maskSecret (JStr (to_str v)))
                               else redactObject v))"
    if "kv \<in> set kvs" for kv
  proof (cases kv)
    case (Pair k v)
    show ?thesis
    proof (cases "re_test True SENSITIVE_KEY_RE k")
      case True
      then show ?thesis using mask_twice_stable [of "JStr (to_str v)"] by (simp add: Pair)
    next
      case False
      with 2 [OF that Pair [symmetric]] show ?thesis by (simp add: Pair)
    qed
  qed
  then show ?case by (simp add: comp_def)
qed simp_all


lemma replace_g_no_match:
  "search_from ic r p pv s = None \<Longrightarrow> replace_g ic r f 0 p pv s = s"
  by (induction s arbitrary: p pv) (auto split: if_splits)

lemma replace_all_no_match: "\<not> re_test ic r s \<Longrightarrow> replace_all ic r f s = s"
  by (simp add: re_test_def replace_all_def replace_g_no_match)

lemma sensitive_token: "re_test True SENSITIVE_KEY_RE (str ''token'')"
  by (simp add: SENSITIVE_KEY_RE_def re_defs match_defs del: rep.simps)

lemma mask_short: "maskSecret (JStr (str ''abc'')) = str ''[REDACTED]''"
  by (simp add: maskSecret_def REDACTED_def str_def)

lemma mask_marker: "maskSecret (JStr (str ''[REDACTED]'')) = str ''[RE***ED]''"
  by (simp add: maskSecret_def str_def)

lemma redact_short_secret:
  "redactObject short_secret = JObj [(str ''token'', JStr (str ''[REDACTED]''))]"
  "redactObject (redactObject short_secret) = JObj [(str ''token'', JStr (str ''[RE***ED]''))]"
proof -
  show a: "redactObject short_secret = JObj [(str ''token'', JStr (str ''[REDACTED]''))]"
    by (simp add: short_secret_def sensitive_token mask_short)
  show "redactObject (redactObject short_secret) = JObj [(str ''token'', JStr (str ''[RE***ED]''))]"
    unfolding a by (simp add: sensitive_token mask_marker)
qed

lemma redact_quoted_client_id:
  "redactInline (JStr quoted_client_id) = str ''client_id: [REDACTED]def''"
  "redactInline (JStr (str ''client_id: [REDACTED]def'')) = str ''client_id: [REDACTED]''"
  by (simp_all add: quoted_client_id_def redactInline_def CLIENT_KV_RE_def SENSITIVE_INLINE_RE_def
      re_defs match_defs del: rep.simps)

text \<open>
  Claim C6, as the code has it. Neither redaction is idempotent. For structured
  redaction, masking is idempotent on a string of more than 8 characters (its
  masked form shows the first and the last three characters around \<^verbatim>\<open>***\<close>), but the
  marker \<^verbatim>\<open>[REDACTED]\<close> that replaces a shorter value is itself masked to
  \<^verbatim>\<open>[RE***ED]\<close> by the next application; from the second application on nothing
  changes any more. Inline redaction returns a text in which none of its patterns
  matches as it is; on the text \<^verbatim>\<open>client_id=abc'def\<close> its first application leaves
  \<^verbatim>\<open>client_id: [REDACTED]def\<close> and its second \<^verbatim>\<open>client_id: [REDACTED]\<close>.
\<close>

theorem redaction_stabilises:
  "redactObject (redactObject (redactObject v)) = redactObject (redactObject v)
   \<and> (8 < length s \<longrightarrow> maskSecret (JStr (maskSecret (JStr s))) = maskSecret (JStr s))
   \<and> (\<not> re_test True CLIENT_KV_RE t \<and> list_all (\<lambda>(ic, r). \<not> re_test ic r t) SENSITIVE_INLINE_RE
        \<longrightarrow> redactInline (JStr t) = t)
   \<and> redactInline (JStr quoted_client_id) = str ''client_id: [REDACTED]def''
   \<and> redactInline (JStr (redactInline (JStr quoted_client_id))) = str ''client_id: [REDACTED]''"
proof (intro conjI impI)
  show "redactObject (redactObject (redactObject v)) = redactObject (redactObject v)"
    by (rule redact_thrice)
  show "maskSecret (JStr (maskSecret (JStr s))) = maskSecret (JStr s)" if "8 < length s"
    using that by (rule mask_long)
  show "redactInline (JStr t) = t"
    if "\<not> re_test True CLIENT_KV_RE t \<and> list_all (\<lambda>(ic, r). \<not> re_test ic r t) SENSITIVE_INLINE_RE"
  proof -
    have "to_str (or_else (JStr t) (JStr [])) = t" by (simp add: or_else_def)
    moreover from that have "list_all (\<lambda>(ic, r). \<not> re_test ic r t) SENSITIVE_INLINE_RE" by simp
    then have "foldl (\<lambda>out (ic, pattern). replace_all ic pattern (\<lambda>_ _. REDACTED) out) t
        SENSITIVE_INLINE_RE = t"
      by (simp add: SENSITIVE_INLINE_RE_def replace_all_no_match)
    ultimately show ?thesis using that by (simp add: redactInline_def replace_all_no_match)
  qed
  show "redactInline (JStr quoted_client_id) = str ''client_id: [REDACTED]def''"
    by (rule redact_quoted_client_id)
  show "redactInline (JStr (redactInline (JStr quoted_client_id))) = str ''client_id: [REDACTED]''"
    by (simp add: redact_quoted_client_id)
qed

lemma plain_text_unmatched:
  "\<not> re_test True CLIENT_KV_RE (str ''hello'')"
  "list_all (\<lambda>(ic, r). \<not> re_test ic r (str ''hello'')) SENSITIVE_INLINE_RE"
  by (simp_all add: CLIENT_KV_RE_def SENSITIVE_INLINE_RE_def re_defs match_defs del: rep.simps)

text \<open>
  The short secret from its second redaction on, a long secret, and a text without
  credentials.
\<close>

theorem redaction_stabilises_witness:
  "redactObject (redactObject (redactObject short_secret)) = JObj [(str ''token'', JStr (str ''[RE***ED]''))]
   \<and> maskSecret (JStr (maskSecret (JStr (str ''sk-0123456789'')))) = str ''sk-***789''
   \<and> redactInline (JStr (str ''hello'')) = str ''hello''"
proof -
  note inst = redaction_stabilises [of short_secret "str ''sk-0123456789''" "str ''hello''"]
  have "8 < length (str ''sk-0123456789'')" by (simp add: str_def)
  with inst have "maskSecret (JStr (maskSecret (JStr (str ''sk-0123456789''))))
      = maskSecret (JStr (str ''sk-0123456789''))" by blast
  moreover have "maskSecret (JStr (str ''sk-0123456789'')) = str ''sk-***789''"
    by (simp add: maskSecret_def str_def)
  moreover from inst plain_text_unmatched have "redactInline (JStr (str ''hello'')) = str ''hello''"
    by blast
  moreover from inst have "redactObject (redactObject (redactObject short_secret))
      = redactObject (redactObject short_secret)" by blast
  then have "redactObject (redactObject (redactObject short_secret))
      = JObj [(str ''token'', JStr (str ''[RE***ED]''))]"
    by (simp only: redact_short_secret(2))
  ultimately show ?thesis by (simp only: simp_thms)
qed

text \<open>
  The claim as written fails: a second structured redaction of the short secret
  changes the result of the first.
\<close>

theorem redactObject_counterexample:
  "redactObject (redactObject short_secret) \<noteq> redactObject short_secret"
proof -
  have "JObj [(str ''token'', JStr (str ''[RE***ED]''))] \<noteq> JObj [(str ''token'', JStr (str ''[REDACTED]''))]"
    by (simp add: str_def)
  then show ?thesis
    by (subst redact_short_secret(2), subst redact_short_secret(1))
qed

section \<open>The scheduled-task message\<close>

text \<open>
  Claim C7, evaluated. The normalizer removes the bracketed timestamp of the
  message, but the label and its dash stay: the result begins with the label, not
  with the answer.
\<close>

theorem scheduled_query_keeps_label:
  "normalizeQueryText (JStr scheduled_query) 1200 = Some (dingshi_renwu @ str '' - '' @ agree_text)
   \<and> take (length agree_text) (dingshi_renwu @ str '' - '' @ agree_text) \<noteq> agree_text"
  by (simp add: nq_defs scheduled_query_def agree_text_def re_defs match_defs del: rep.simps)

section \<open>Upserts on keyed lists\<close>

lemma keys_upsert_by:
  assumes "\<And>old new. key old = key new \<Longrightarrow> key (cf old new) = key old"
  shows "map key (upsert_by key cf new rows) =
     (if key new \<in> set (map key rows) then map key rows else map key rows @ [key new])"
  using assms by (induction rows) auto

lemma distinct_upsert_by:
  assumes "\<And>old new. key old = key new \<Longrightarrow> key (cf old new) = key old"
    and "distinct (map key rows)"
  shows "distinct (map key (upsert_by key cf new rows))"
  using assms(2) by (simp add: keys_upsert_by [of key cf, OF assms(1)])

lemma look_upsert_by:
  assumes "\<And>old new. key old = key new \<Longrightarrow> key (cf old new) = key old"
  shows "look key (upsert_by key cf new rows) k =
     (if key new = k then Some (case look key rows k of None \<Rightarrow> new | Some old \<Rightarrow> cf old new)
      else look key rows k)"
  using assms by (induction rows) (auto simp: look_def)

lemma keys_fold_upsert:
  assumes "\<And>old new. key old = key new \<Longrightarrow> key (cf old new) = key old"
  shows "\<exists>news. map key (foldl (\<lambda>rows new. upsert_by key cf new rows) rows ins) = map key rows @ news
     \<and> set news \<inter> set (map key rows) = {}"
proof (induction ins rule: rev_induct)
  case Nil
  show ?case by simp
next
  case (snoc new ins)
  then obtain news where news:
    "map key (foldl (\<lambda>rows new. upsert_by key cf new rows) rows ins) = map key rows @ news"
    "set news \<inter> set (map key rows) = {}" by blast
  show ?case
  proof (cases "key new \<in> set (map key rows @ news)")
    case True
    with news show ?thesis
      by (auto simp: keys_upsert_by [of key cf, OF assms])
  next
    case False
    with news have "map key (foldl (\<lambda>rows new. upsert_by key cf new rows) rows (ins @ [new]))
        = map key rows @ (news @ [key new])"
      by (simp add: keys_upsert_by [of key cf, OF assms])
    moreover from False news have "set (news @ [key new]) \<inter> set (map key rows) = {}" by auto
    ultimately show ?thesis by blast
  qed
qed

lemma distinct_fold_upsert:
  assumes "\<And>old new. key old = key new \<Longrightarrow> key (cf old new) = key old"
    and "distinct (map key rows)"
  shows "distinct (map key (foldl (\<lambda>rows new. upsert_by key cf new rows) rows ins))"
  using assms(2)
  by (induction ins rule: rev_induct) (simp_all add: distinct_upsert_by [of key cf, OF assms(1)])

lemma look_fold_upsert:
  assumes "\<And>old new. key old = key new \<Longrightarrow> key (cf old new) = key old"
  shows "look key (foldl (\<lambda>rows new. upsert_by key cf new rows) rows ins) k
     = settle key cf ins k (look key rows k)"
  by (induction ins rule: rev_induct)
     (simp_all add: settle_def look_upsert_by [of key cf, OF assms])

lemma look_None_iff: "look key rows k = None \<longleftrightarrow> k \<notin> set (map key rows)"
  by (induction rows) (auto simp: look_def)

lemma look_Some_D: "look key rows k = Some r \<Longrightarrow> r \<in> set rows \<and> key r = k"
  by (induction rows) (auto simp: look_def split: if_splits)

lemma look_own: "distinct (map key rows) \<Longrightarrow> r \<in> set rows \<Longrightarrow> look key rows (key r) = Some r"
  by (induction rows) (auto simp: look_def image_iff)

lemma look_filter:
  "distinct (map key rows) \<Longrightarrow> look key (filter keep rows) k = kept keep (look key rows k)"
proof (induction rows)
  case Nil
  show ?case by (simp add: look_def kept_def)
next
  case (Cons a rows)
  then have ih: "look key (filter keep rows) k = kept keep (look key rows k)" by simp
  show ?case
  proof (cases "key a = k")
    case True
    with Cons.prems have "look key rows k = None" by (auto simp: look_None_iff image_iff)
    with ih have "look key (filter keep rows) k = None" by (simp add: kept_def)
    with True show ?thesis by (simp add: look_def kept_def)
  next
    case False
    with ih show ?thesis by (simp add: look_def)
  qed
qed

lemma keys_filter:
  "distinct (map key rows) \<Longrightarrow>
   map key (filter keep rows) = filter (\<lambda>k. look key (filter keep rows) k \<noteq> None) (map key rows)"
proof (induction rows)
  case Nil
  show ?case by simp
next
  case (Cons a rows)
  then have ih: "map key (filter keep rows)
      = filter (\<lambda>k. look key (filter keep rows) k \<noteq> None) (map key rows)" by simp
  from Cons.prems have fresh: "key a \<notin> set (map key rows)" by simp
  have same: "filter (\<lambda>k. look key (filter keep (a # rows)) k \<noteq> None) (map key rows)
      = filter (\<lambda>k. look key (filter keep rows) k \<noteq> None) (map key rows)"
    using fresh by (intro filter_cong refl) (auto simp: look_def)
  have "look key (filter keep rows) (key a) = None"
    using fresh by (auto simp: look_None_iff)
  then show ?case using ih same by (auto simp: look_def)
qed

lemma keyed_list_eq:
  "distinct (map key xs) \<Longrightarrow> map key xs = map key ys \<Longrightarrow> (\<And>k. look key xs k = look key ys k)
   \<Longrightarrow> xs = ys"
proof (induction xs arbitrary: ys)
  case Nil
  then show ?case by simp
next
  case (Cons x xs)
  from Cons.prems(2) obtain y ys' where ys: "ys = y # ys'" "key x = key y" "map key xs = map key ys'"
    by (cases ys) auto
  from Cons.prems(3) [of "key x"] ys have "x = y" by (simp add: look_def)
  have "look key xs k = look key ys' k" for k
  proof (cases "k = key x")
    case True
    with Cons.prems(1) ys show ?thesis
      by (metis distinct.simps(2) list.simps(9) look_None_iff)
  next
    case False
    with Cons.prems(3) [of k] ys show ?thesis by (simp add: look_def split: if_splits)
  qed
  with Cons.IH [of ys'] Cons.prems(1) ys have "xs = ys'" by simp
  with \<open>x = y\<close> ys show ?case by simp
qed


lemma settle_other: "\<forall>n\<in>set ins. key n \<noteq> k \<Longrightarrow> settle key cf ins k z = z"
  by (induction ins rule: rev_induct) (simp_all add: settle_def)

lemma settle_Some: "\<exists>n\<in>set ins. key n = k \<Longrightarrow> \<exists>r. settle key cf ins k z = Some r"
proof (induction ins rule: rev_induct)
  case Nil
  then show ?case by simp
next
  case (snoc n ins)
  show ?case
  proof (cases "key n = k")
    case True
    then show ?thesis by (simp add: settle_def)
  next
    case False
    with snoc show ?thesis by (simp add: settle_def)
  qed
qed

text \<open>
  A table after a pass, and the same upserts and a later deletion applied to it:
  nothing changes, if the upserts settle every key in a way that does not depend
  on being repeated, and the later deletion removes no row that the pass kept.
\<close>

lemma second_pass_table:
  fixes key :: "'a \<Rightarrow> 'k" and X Y :: "'a list" and cf :: "'a \<Rightarrow> 'a \<Rightarrow> 'a"
  defines "ups \<equiv> \<lambda>rows new. upsert_by key cf new rows"
  assumes keyed: "\<And>old new. key old = key new \<Longrightarrow> key (cf old new) = key old"
    and dist: "distinct (map key X)"
    and Y: "Y = foldl ups (foldl ups X ins) cins"
    and apart: "\<forall>c\<in>set cins. \<forall>n\<in>set ins. key c \<noteq> key n"
    and stab: "\<And>k z. \<forall>r. z = Some r \<longrightarrow> key r = k \<Longrightarrow>
        settle key cf ins k (settle key cf ins k z) = settle key cf ins k z"
    and lastdep: "\<And>k a b. \<exists>n\<in>set ins. key n = k \<Longrightarrow> \<forall>r. a = Some r \<longrightarrow> key r = k \<Longrightarrow>
        \<forall>r. b = Some r \<longrightarrow> key r = k \<Longrightarrow>
        keep2 (the (settle key cf ins k a)) = keep2 (the (settle key cf ins k b))"
    and mono: "\<And>x. keep2 x \<Longrightarrow> keep1 x"
    and fresh: "\<forall>x\<in>set (filter keep1 Y). keep2 x"
  shows "filter keep2 (foldl ups (filter keep1 Y) ins) = filter keep1 Y"
proof -
  define F where "F = filter keep1 Y"
  define L where "L = foldl ups F ins"
  have distY: "distinct (map key Y)"
    unfolding Y ups_def
    by (intro distinct_fold_upsert [of key cf] keyed dist)
  then have distF: "distinct (map key F)"
    unfolding F_def by (rule distinct_map_filter)
  then have distL: "distinct (map key L)"
    unfolding L_def ups_def by (intro distinct_fold_upsert [of key cf] keyed)
  have lookY: "look key Y k = settle key cf cins k (settle key cf ins k (look key X k))" for k
    unfolding Y ups_def by (simp add: look_fold_upsert [of key cf, OF keyed])
  have lookF: "look key F k = kept keep1 (look key Y k)" for k
    unfolding F_def by (rule look_filter [OF distY])
  have lookL: "look key L k = settle key cf ins k (look key F k)" for k
    unfolding L_def ups_def by (rule look_fold_upsert [of key cf, OF keyed])
  have look2: "look key (filter keep2 L) k = kept keep2 (look key L k)" for k
    by (rule look_filter [OF distL])
  have same: "look key (filter keep2 L) k = look key F k" for k
  proof (cases "\<exists>n\<in>set ins. key n = k")
    case False
    then have "look key L k = look key F k"
      unfolding lookL by (intro settle_other) blast
    moreover have "kept keep2 (look key F k) = look key F k"
    proof (cases "look key F k")
      case None
      then show ?thesis by (simp add: kept_def)
    next
      case (Some r)
      then have "r \<in> set F" by (auto dest: look_Some_D)
      with fresh have "keep2 r" by (simp add: F_def)
      with Some show ?thesis by (simp add: kept_def)
    qed
    ultimately show ?thesis by (simp add: look2)
  next
    case True
    then have "\<forall>c\<in>set cins. key c \<noteq> k" using apart by auto
    then have y: "look key Y k = settle key cf ins k (look key X k)"
      unfolding lookY by (rule settle_other)
    from settle_Some [OF True] obtain r where r: "settle key cf ins k (look key X k) = Some r"
      by blast
    have own: "\<forall>r. look key X k = Some r \<longrightarrow> key r = k" by (auto dest: look_Some_D)
    show ?thesis
    proof (cases "keep1 r")
      case keep: True
      then have f: "look key F k = Some r" by (simp add: lookF y r kept_def)
      then have "r \<in> set F" by (auto dest: look_Some_D)
      with fresh have "keep2 r" by (simp add: F_def)
      have "look key L k = settle key cf ins k (settle key cf ins k (look key X k))"
        by (simp add: lookL f r)
      also have "\<dots> = Some r" using stab [of "look key X k" k, OF own] by (simp add: r)
      finally show ?thesis using \<open>keep2 r\<close> f by (simp add: look2 kept_def)
    next
      case drop: False
      then have f: "look key F k = None" by (simp add: lookF y r kept_def)
      from settle_Some [OF True] obtain r' where r': "settle key cf ins k None = Some r'"
        by blast
      from lastdep [OF True, of None "look key X k"] own have "keep2 r' = keep2 r"
        by (simp add: r r')
      moreover from drop mono have "\<not> keep2 r" by blast
      ultimately show ?thesis by (simp add: look2 lookL f r' kept_def)
    qed
  qed
  from keys_fold_upsert [of key cf F ins, OF keyed] obtain news where
    news: "map key L = map key F @ news" "set news \<inter> set (map key F) = {}"
    unfolding L_def ups_def by blast
  have "map key (filter keep2 L) = filter (\<lambda>k. look key (filter keep2 L) k \<noteq> None) (map key L)"
    by (rule keys_filter [OF distL])
  also have "\<dots> = filter (\<lambda>k. look key F k \<noteq> None) (map key F @ news)"
    by (simp add: same news)
  also have "\<dots> = map key F"
  proof -
    have "filter (\<lambda>k. look key F k \<noteq> None) (map key F) = map key F"
      by (simp add: look_None_iff)
    moreover have "filter (\<lambda>k. look key F k \<noteq> None) news = []"
      using news(2) by (auto simp: look_None_iff filter_empty_conv)
    ultimately show ?thesis by simp
  qed
  finally have keys: "map key F = map key (filter keep2 L)" by simp
  have "F = filter keep2 L"
    by (rule keyed_list_eq [OF distF keys]) (simp add: same)
  then show ?thesis by (simp add: L_def F_def)
qed

section \<open>The two session tables as keyed lists\<close>

lemma same_session_row_key: "same_session a b \<longleftrightarrow> row_key a = row_key b"
  by (simp add: same_session_def row_key_def)

lemma upsertRollup_by: "upsertRollup new rows = upsert_by row_key rollup_conflict new rows"
  by (induction rows) (simp_all add: same_session_row_key rollup_conflict_def)

lemma upsertFact_by: "upsertFact new rows = upsert_by row_key fact_conflict new rows"
  by (induction rows) (simp_all add: same_session_row_key)

lemma row_key_fact_conflict: "row_key (fact_conflict old new) = row_key old"
  by (simp add: row_key_def fact_conflict_def)

lemma row_key_rollup_conflict: "row_key (rollup_conflict old new) = row_key old"
  by (simp add: row_key_def rollup_conflict_def)

lemma row_key_truncate: "row_key (rollup_row.truncate r) = row_key r"
  by (simp add: row_key_def rollup_row.truncate_def)

lemma rollup_conflict_same: "row_key old = row_key new \<Longrightarrow> rollup_conflict old new = new"
  by (simp add: row_key_def rollup_conflict_def)

lemma settle_snoc:
  "settle key cf (ins @ [n]) k z =
     (if key n = k then Some (case settle key cf ins k z of None \<Rightarrow> n | Some old \<Rightarrow> cf old n)
      else settle key cf ins k z)"
  by (simp add: settle_def)

lemma settle_key:
  assumes "\<And>old new. key old = key new \<Longrightarrow> key (cf old new) = key old"
    and "\<forall>r. z = Some r \<longrightarrow> key r = k"
  shows "\<forall>r. settle key cf ins k z = Some r \<longrightarrow> key r = k"
proof (induction ins rule: rev_induct)
  case Nil
  from assms(2) show ?case by (simp add: settle_def)
next
  case (snoc n ins)
  show ?case
  proof (cases "settle key cf ins k z")
    case None
    then show ?thesis by (auto simp: settle_snoc)
  next
    case (Some old)
    with snoc have "key old = k" by simp
    with Some assms(1) [of old n] show ?thesis by (auto simp: settle_snoc)
  qed
qed

text \<open>What the upserts of the rollup leave under a key: the last row written.\<close>

lemma rollup_settle:
  assumes "\<exists>n\<in>set ins. row_key n = k" and "\<forall>r. z = Some r \<longrightarrow> row_key r = k"
  shows "settle row_key rollup_conflict ins k z = Some (last (filter (\<lambda>n. row_key n = k) ins))"
  using assms(1)
proof (induction ins rule: rev_induct)
  case Nil
  then show ?case by simp
next
  case (snoc n ins)
  show ?case
  proof (cases "row_key n = k")
    case False
    with snoc show ?thesis by (simp add: settle_snoc)
  next
    case True
    have "\<forall>r. settle row_key rollup_conflict ins k z = Some r \<longrightarrow> row_key r = k"
      by (rule settle_key [OF row_key_rollup_conflict assms(2)])
    with True show ?thesis
      by (simp add: settle_snoc rollup_conflict_same split: option.splits)
  qed
qed

text \<open>
  What the upserts of the facts leave under a key, when no incoming row carries a
  query: the last row written, with the label and the path of the latest row
  that has one, the stored row being the oldest.
\<close>

lemma coalesce_fold_idem:
  "foldl (\<lambda>l n. coalesce (f n) l) (foldl (\<lambda>l n. coalesce (f n) l) l xs) xs
     = foldl (\<lambda>l n. coalesce (f n) l) l xs"
proof (induction xs arbitrary: l rule: rev_induct)
  case Nil
  show ?case by simp
next
  case (snoc n xs)
  show ?case
  proof (cases "f n")
    case None
    with snoc show ?thesis by (simp add: coalesce_def)
  next
    case (Some v)
    then show ?thesis by (simp add: coalesce_def)
  qed
qed

lemma fact_conflict_no_query:
  "row_key old = row_key n \<Longrightarrow> input_query n = None \<Longrightarrow>
   fact_conflict old n = n\<lparr>c_label := coalesce (c_label n) (c_label old),
                            input_query := input_query old,
                            source_path := coalesce (source_path n) (source_path old)\<rparr>"
  by (cases n, cases old) (auto simp: fact_conflict_def row_key_def)

lemma fact_insert_no_query:
  "input_query n = None \<Longrightarrow>
   n\<lparr>c_label := coalesce (c_label n) None, input_query := None,
      source_path := coalesce (source_path n) None\<rparr> = n"
  by (cases n) (auto simp: coalesce_def split: option.splits)

lemma row_key_kept_fields:
  "row_key (m\<lparr>c_label := l, input_query := q, source_path := p\<rparr>) = row_key m"
  by (simp add: row_key_def)

lemma fact_settle:
  assumes "\<exists>n\<in>set ins. row_key n = k" and "\<forall>r. z = Some r \<longrightarrow> row_key r = k"
    and "\<forall>n\<in>set ins. input_query n = None"
  shows "settle row_key fact_conflict ins k z =
     Some ((last (filter (\<lambda>n. row_key n = k) ins))
       \<lparr>c_label := foldl (\<lambda>l n. coalesce (c_label n) l) (Option.bind z c_label)
                     (filter (\<lambda>n. row_key n = k) ins),
        input_query := Option.bind z input_query,
        source_path := foldl (\<lambda>l n. coalesce (source_path n) l) (Option.bind z source_path)
                         (filter (\<lambda>n. row_key n = k) ins)\<rparr>)"
  using assms(1,3)
proof (induction ins rule: rev_induct)
  case Nil
  then show ?case by simp
next
  case (snoc n ins)
  show ?case
  proof (cases "row_key n = k")
    case False
    with snoc show ?thesis by (simp add: settle_snoc)
  next
    case True
    from snoc.prems have q: "input_query n = None" by simp
    show ?thesis
    proof (cases "\<exists>m\<in>set ins. row_key m = k")
      case False
      then have "settle row_key fact_conflict ins k z = z" by (intro settle_other) blast
      with True have s: "settle row_key fact_conflict (ins @ [n]) k z
          = Some (case z of None \<Rightarrow> n | Some old \<Rightarrow> fact_conflict old n)"
        by (simp add: settle_snoc)
      from False have e: "filter (\<lambda>n. row_key n = k) ins = []"
        by (auto simp: filter_empty_conv)
      show ?thesis
      proof (cases z)
        case None
        with True q show ?thesis
          unfolding s by (simp add: e fact_insert_no_query)
      next
        case (Some old)
        with assms(2) True have "row_key old = row_key n" by simp
        from fact_conflict_no_query [OF this q] True Some show ?thesis
          unfolding s by (simp add: e)
      qed
    next
      case some: True
      with snoc have ih: "settle row_key fact_conflict ins k z =
         Some ((last (filter (\<lambda>n. row_key n = k) ins))
           \<lparr>c_label := foldl (\<lambda>l n. coalesce (c_label n) l) (Option.bind z c_label)
                         (filter (\<lambda>n. row_key n = k) ins),
            input_query := Option.bind z input_query,
            source_path := foldl (\<lambda>l n. coalesce (source_path n) l) (Option.bind z source_path)
                             (filter (\<lambda>n. row_key n = k) ins)\<rparr>)" by simp
      from some have "filter (\<lambda>n. row_key n = k) ins \<noteq> []" by (auto simp: filter_empty_conv)
      then have "last (filter (\<lambda>n. row_key n = k) ins) \<in> set (filter (\<lambda>n. row_key n = k) ins)"
        by (rule last_in_set)
      then have "row_key (last (filter (\<lambda>n. row_key n = k) ins)) = row_key n"
        using True by simp
      then have "row_key ((last (filter (\<lambda>n. row_key n = k) ins))
           \<lparr>c_label := foldl (\<lambda>l n. coalesce (c_label n) l) (Option.bind z c_label)
                         (filter (\<lambda>n. row_key n = k) ins),
            input_query := Option.bind z input_query,
            source_path := foldl (\<lambda>l n. coalesce (source_path n) l) (Option.bind z source_path)
                             (filter (\<lambda>n. row_key n = k) ins)\<rparr>) = row_key n"
        by (simp only: row_key_kept_fields)
      from fact_conflict_no_query [OF this q] True show ?thesis
        unfolding settle_snoc ih by simp
    qed
  qed
qed

lemma fact_settle_stable:
  assumes "\<forall>r. z = Some r \<longrightarrow> row_key r = k" and "\<forall>n\<in>set ins. input_query n = None"
  shows "settle row_key fact_conflict ins k (settle row_key fact_conflict ins k z)
     = settle row_key fact_conflict ins k z"
proof (cases "\<exists>n\<in>set ins. row_key n = k")
  case False
  then have "settle row_key fact_conflict ins k y = y" for y by (intro settle_other) blast
  then show ?thesis by simp
next
  case True
  note a = fact_settle [OF True assms]
  have "\<forall>r. settle row_key fact_conflict ins k z = Some r \<longrightarrow> row_key r = k"
    by (rule settle_key [OF row_key_fact_conflict assms(1)])
  note b = fact_settle [OF True this assms(2)]
  show ?thesis
    by (subst b) (simp add: a coalesce_fold_idem)
qed

lemma rollup_settle_stable:
  assumes "\<forall>r. z = Some r \<longrightarrow> row_key r = k"
  shows "settle row_key rollup_conflict ins k (settle row_key rollup_conflict ins k z)
     = settle row_key rollup_conflict ins k z"
proof (cases "\<exists>n\<in>set ins. row_key n = k")
  case False
  then have "settle row_key rollup_conflict ins k y = y" for y by (intro settle_other) blast
  then show ?thesis by simp
next
  case True
  have "\<forall>r. settle row_key rollup_conflict ins k z = Some r \<longrightarrow> row_key r = k"
    by (rule settle_key [OF row_key_rollup_conflict assms(1)])
  from rollup_settle [OF True this] rollup_settle [OF True assms] show ?thesis by simp
qed

lemma survives_fact_settle:
  assumes "\<exists>n\<in>set ins. row_key n = k" and "\<forall>n\<in>set ins. input_query n = None"
    and "\<forall>r. a = Some r \<longrightarrow> row_key r = k" and "\<forall>r. b = Some r \<longrightarrow> row_key r = k"
  shows "survives w (the (settle row_key fact_conflict ins k a))
       = survives w (the (settle row_key fact_conflict ins k b))"
  by (simp add: fact_settle [OF assms(1,3,2)] fact_settle [OF assms(1,4,2)]
        survives_def no_activity_def)

lemma survives_rollup_settle:
  assumes "\<exists>n\<in>set ins. row_key n = k"
    and "\<forall>r. a = Some r \<longrightarrow> row_key r = k" and "\<forall>r. b = Some r \<longrightarrow> row_key r = k"
  shows "survives w (the (settle row_key rollup_conflict ins k a))
       = survives w (the (settle row_key rollup_conflict ins k b))"
  by (simp add: rollup_settle [OF assms(1,2)] rollup_settle [OF assms(1,3)])

section \<open>The loops of a pass\<close>

lemma openclaw_not_codex: "openclaw \<noteq> codex"
  by (simp add: openclaw_def codex_def str_def)

lemma upsertSession_tables:
  "upsertSession w row d =
     (if writes row
      then d\<lparr>session_rollup := upsertRollup (rollup_row.truncate (session_row w row)) (session_rollup d),
              session_fact := upsertFact (session_row w row) (session_fact d)\<rparr>
      else d)"
  by (simp add: upsertSession_def writes_def)

lemma ingest_file_upsertSession: "ingest_file (upsertSession w row d) = ingest_file d"
  by (simp add: upsertSession_tables)

lemma registry_loop:
  "foldl (\<lambda>d record. upsertSession w (registry_row record) d) d records =
     d\<lparr>session_rollup := foldl (\<lambda>rows new. upsertRollup new rows) (session_rollup d)
                             (map rollup_row.truncate (registry_rows w records)),
       session_fact := foldl (\<lambda>rows new. upsertFact new rows) (session_fact d)
                             (registry_rows w records)\<rparr>"
  by (induction records rule: rev_induct) (simp_all add: registry_rows_def upsertSession_tables)

lemma registry_rows_source: "n \<in> set (registry_rows w records) \<Longrightarrow> c_source n = openclaw"
  by (auto simp: registry_rows_def session_row_def registry_row_def Let_def openclaw_not_codex)

lemma registry_rows_query: "n \<in> set (registry_rows w records) \<Longrightarrow> input_query n = None"
  by (auto simp: registry_rows_def session_row_def registry_row_def Let_def nq_null)

text \<open>The rows a Codex file writes carry the source \<^verbatim>\<open>codex\<close>.\<close>

lemma codex_source:
  "parseCodexSessionFile w p st = Some parsed \<Longrightarrow> c_source (session_row w parsed) = codex"
  by (auto simp: parseCodexSessionFile_def session_row_def Let_def codex_def
           split: option.splits if_splits)

lemma codex_step:
  "\<exists>cs. (\<forall>c\<in>set cs. c_source c = codex)
     \<and> session_fact (ingest_codex_file w d item) = foldl (\<lambda>rows new. upsertFact new rows) (session_fact d) cs
     \<and> session_rollup (ingest_codex_file w d item)
         = foldl (\<lambda>rows new. upsertRollup new rows) (session_rollup d) (map rollup_row.truncate cs)"
proof (cases "file_unchanged codex item d")
  case True
  then have "ingest_codex_file w d item = d" by (simp add: ingest_codex_file_def)
  then show ?thesis by (intro exI [of _ "[]"]) simp
next
  case False
  show ?thesis
  proof (cases "parseCodexSessionFile w (fst item) (snd item)")
    case None
    with False have "ingest_codex_file w d item = record_file w codex item d"
      by (simp add: ingest_codex_file_def)
    then show ?thesis by (intro exI [of _ "[]"]) (simp add: record_file_def)
  next
    case (Some parsed)
    with False have eq: "ingest_codex_file w d item = record_file w codex item (upsertSession w parsed d)"
      by (simp add: ingest_codex_file_def)
    show ?thesis
    proof (cases "writes parsed")
      case True
      with eq codex_source [OF Some] show ?thesis
        by (intro exI [of _ "[session_row w parsed]"])
           (simp add: record_file_def upsertSession_tables)
    next
      case False
      with eq show ?thesis
        by (intro exI [of _ "[]"]) (simp add: record_file_def upsertSession_tables)
    qed
  qed
qed

lemma codex_loop:
  "\<exists>cs. (\<forall>c\<in>set cs. c_source c = codex)
     \<and> session_fact (foldl (ingest_codex_file w) d items)
         = foldl (\<lambda>rows new. upsertFact new rows) (session_fact d) cs
     \<and> session_rollup (foldl (ingest_codex_file w) d items)
         = foldl (\<lambda>rows new. upsertRollup new rows) (session_rollup d) (map rollup_row.truncate cs)"
proof (induction items rule: rev_induct)
  case Nil
  show ?case by (intro exI [of _ "[]"]) simp
next
  case (snoc item items)
  then obtain cs where cs: "\<forall>c\<in>set cs. c_source c = codex"
    "session_fact (foldl (ingest_codex_file w) d items)
       = foldl (\<lambda>rows new. upsertFact new rows) (session_fact d) cs"
    "session_rollup (foldl (ingest_codex_file w) d items)
       = foldl (\<lambda>rows new. upsertRollup new rows) (session_rollup d) (map rollup_row.truncate cs)"
    by blast
  from codex_step [of w "foldl (ingest_codex_file w) d items" item]
  obtain cs' where cs': "\<forall>c\<in>set cs'. c_source c = codex"
    "session_fact (ingest_codex_file w (foldl (ingest_codex_file w) d items) item)
       = foldl (\<lambda>rows new. upsertFact new rows) (session_fact (foldl (ingest_codex_file w) d items)) cs'"
    "session_rollup (ingest_codex_file w (foldl (ingest_codex_file w) d items) item)
       = foldl (\<lambda>rows new. upsertRollup new rows)
           (session_rollup (foldl (ingest_codex_file w) d items)) (map rollup_row.truncate cs')"
    by blast
  from cs cs' show ?case
    by (intro exI [of _ "cs @ cs'"]) (simp add: ball_Un)
qed

subsection \<open>Distinct keys\<close>

lemma distinct_upsertFact:
  "distinct (map row_key rows) \<Longrightarrow> distinct (map row_key (upsertFact new rows))"
  unfolding upsertFact_by by (rule distinct_upsert_by [of row_key fact_conflict]) (rule row_key_fact_conflict)

lemma distinct_upsertRollup:
  "distinct (map row_key rows) \<Longrightarrow> distinct (map row_key (upsertRollup new rows))"
  unfolding upsertRollup_by
  by (rule distinct_upsert_by [of row_key rollup_conflict]) (rule row_key_rollup_conflict)

lemma distinct_upsertSession:
  assumes "distinct (map row_key (session_fact d)) \<and> distinct (map row_key (session_rollup d))"
  shows "distinct (map row_key (session_fact (upsertSession w row d)))
       \<and> distinct (map row_key (session_rollup (upsertSession w row d)))"
  using assms by (simp add: upsertSession_tables distinct_upsertFact distinct_upsertRollup)

lemma distinct_openclaw_step:
  assumes "distinct (map row_key (session_fact d)) \<and> distinct (map row_key (session_rollup d))"
  shows "distinct (map row_key (session_fact (ingest_openclaw_file w reg agent d item)))
       \<and> distinct (map row_key (session_rollup (ingest_openclaw_file w reg agent d item)))"
  using assms distinct_upsertSession [OF assms]
  by (simp add: ingest_openclaw_file_def record_file_def split: option.splits)

lemma flatten_loops:
  "foldl (\<lambda>d a. foldl (f a) d (items a)) d agents
     = foldl (\<lambda>d x. f (fst x) d (snd x)) d (concat (map (\<lambda>a. map (Pair a) (items a)) agents))"
  by (induction agents arbitrary: d) (simp_all add: foldl_map)

lemma distinct_openclaw_loop:
  assumes "distinct (map row_key (session_fact d)) \<and> distinct (map row_key (session_rollup d))"
  shows "distinct (map row_key (session_fact (foldl (\<lambda>d x. ingest_openclaw_file w reg (fst x) d (snd x)) d xs)))
       \<and> distinct (map row_key (session_rollup (foldl (\<lambda>d x. ingest_openclaw_file w reg (fst x) d (snd x)) d xs)))"
  using assms by (induction xs rule: rev_induct) (simp_all add: distinct_openclaw_step)

subsection \<open>The recorded file states\<close>

lemma find_upsertIngestedFileState:
  "find (\<lambda>r. i_source r = s \<and> file_path r = p) (upsertIngestedFileState new rows) =
     (if i_source new = s \<and> file_path new = p
      then Some (case find (\<lambda>r. i_source r = s \<and> file_path r = p) rows of
                   None \<Rightarrow> new
                 | Some old \<Rightarrow> old\<lparr>mtime_ms := mtime_ms new, size_bytes := size_bytes new,
                                    ingested_at := ingested_at new\<rparr>)
      else find (\<lambda>r. i_source r = s \<and> file_path r = p) rows)"
  by (induction rows) (auto simp: same_file_def)

lemma file_unchanged_cong:
  "ingest_file d = ingest_file d' \<Longrightarrow> file_unchanged s i d = file_unchanged s i d'"
  by (simp add: file_unchanged_def getIngestedFileState_def)

lemma record_sets: "file_unchanged src item (record_file w src item d)"
  by (simp add: file_unchanged_def getIngestedFileState_def record_file_def
        find_upsertIngestedFileState split: option.splits)

lemma record_keeps:
  assumes "file_unchanged s i d" and "safeStat w (fst i) = Some (snd i)"
    and "safeStat w (fst item) = Some (snd item)"
  shows "file_unchanged s i (record_file w src item d)"
proof (cases "src = s \<and> fst item = fst i")
  case True
  with assms(2,3) have "snd item = snd i" by simp
  with True have "record_file w src item d = record_file w s i d"
    by (simp add: record_file_def)
  then show ?thesis by (simp add: record_sets)
next
  case False
  with assms(1) show ?thesis
    by (auto simp: file_unchanged_def getIngestedFileState_def record_file_def
          find_upsertIngestedFileState)
qed

lemma stat_files_stat: "item \<in> set (stat_files w paths) \<Longrightarrow> safeStat w (fst item) = Some (snd item)"
  by (auto simp: stat_files_def List.map_filter_def split: option.splits if_splits)

lemma openclaw_step_sets: "file_unchanged openclaw item (ingest_openclaw_file w reg agent d item)"
proof (cases "file_unchanged openclaw item d")
  case True
  then show ?thesis by (simp add: ingest_openclaw_file_def)
next
  case False
  then obtain d' where "ingest_openclaw_file w reg agent d item = record_file w openclaw item d'"
    by (simp add: ingest_openclaw_file_def)
  then show ?thesis by (simp add: record_sets)
qed

lemma openclaw_step_keeps:
  assumes "file_unchanged s i d" and "safeStat w (fst i) = Some (snd i)"
    and "safeStat w (fst item) = Some (snd item)"
  shows "file_unchanged s i (ingest_openclaw_file w reg agent d item)"
proof (cases "file_unchanged openclaw item d")
  case True
  with assms(1) show ?thesis by (simp add: ingest_openclaw_file_def)
next
  case False
  then obtain d' where d': "ingest_openclaw_file w reg agent d item = record_file w openclaw item d'"
    "ingest_file d' = ingest_file d"
    by (cases "parseOpenClawSessionFile w (fst item) agent (snd item)")
       (simp_all add: ingest_openclaw_file_def ingest_file_upsertSession)
  from file_unchanged_cong [OF d'(2)] assms(1) have "file_unchanged s i d'" by simp
  from record_keeps [OF this assms(2,3)] d'(1) show ?thesis by simp
qed

lemma codex_step_sets: "file_unchanged codex item (ingest_codex_file w d item)"
proof (cases "file_unchanged codex item d")
  case True
  then show ?thesis by (simp add: ingest_codex_file_def)
next
  case False
  then obtain d' where "ingest_codex_file w d item = record_file w codex item d'"
    by (simp add: ingest_codex_file_def)
  then show ?thesis by (simp add: record_sets)
qed

lemma codex_step_keeps:
  assumes "file_unchanged s i d" and "safeStat w (fst i) = Some (snd i)"
    and "safeStat w (fst item) = Some (snd item)"
  shows "file_unchanged s i (ingest_codex_file w d item)"
proof (cases "file_unchanged codex item d")
  case True
  with assms(1) show ?thesis by (simp add: ingest_codex_file_def)
next
  case False
  then obtain d' where d': "ingest_codex_file w d item = record_file w codex item d'"
    "ingest_file d' = ingest_file d"
    by (cases "parseCodexSessionFile w (fst item) (snd item)")
       (simp_all add: ingest_codex_file_def ingest_file_upsertSession)
  from file_unchanged_cong [OF d'(2)] assms(1) have "file_unchanged s i d'" by simp
  from record_keeps [OF this assms(2,3)] d'(1) show ?thesis by simp
qed

text \<open>
  A loop over files whose step records the file it visits and keeps what is
  recorded of the others: after it every visited file is recorded as it is.
\<close>

lemma loop_keeps:
  assumes keeps: "\<And>d x. x \<in> set xs \<Longrightarrow> file_unchanged s i d \<Longrightarrow> file_unchanged s i (step d x)"
    and "file_unchanged s i d"
  shows "file_unchanged s i (foldl step d xs)"
  using assms
proof (induction xs arbitrary: d)
  case Nil
  then show ?case by simp
next
  case (Cons x xs)
  from Cons.prems have "file_unchanged s i (step d x)" by simp
  with Cons.IH [of "step d x"] Cons.prems(1) show ?case by simp
qed

lemma loop_sets:
  assumes keeps: "\<And>d x y. x \<in> set xs \<Longrightarrow> y \<in> set xs \<Longrightarrow> file_unchanged src (it y) d
        \<Longrightarrow> file_unchanged src (it y) (step d x)"
    and sets: "\<And>d x. x \<in> set xs \<Longrightarrow> file_unchanged src (it x) (step d x)"
  shows "\<forall>y\<in>set xs. file_unchanged src (it y) (foldl step d xs)"
  using assms
proof (induction xs rule: rev_induct)
  case Nil
  show ?case by simp
next
  case (snoc x xs)
  have "\<forall>y\<in>set xs. file_unchanged src (it y) (foldl step d xs)"
    by (rule snoc.IH) (simp_all add: snoc.prems)
  then have "\<forall>y\<in>set xs. file_unchanged src (it y) (step (foldl step d xs) x)"
    by (simp add: snoc.prems(1))
  moreover have "file_unchanged src (it x) (step (foldl step d xs) x)"
    by (simp add: snoc.prems(2))
  ultimately show ?case by simp
qed

lemma loop_idle: "\<forall>x\<in>set xs. step d x = d \<Longrightarrow> foldl step d xs = d"
  by (induction xs) simp_all

lemma agent_items_stat: "x \<in> set (agent_items w agents) \<Longrightarrow> safeStat w (fst (snd x)) = Some (snd (snd x))"
  by (auto simp: agent_items_def dest: stat_files_stat)

lemma codex_items_stat: "x \<in> set (codex_items w) \<Longrightarrow> safeStat w (fst x) = Some (snd x)"
  by (auto simp: codex_items_def dest: stat_files_stat)

text \<open>The three loops of a pass, over the flattened list of the agents' files.\<close>

lemma ingest_files_loops:
  "ingest_files w agents records d =
     foldl (ingest_codex_file w)
       (foldl (\<lambda>d record. upsertSession w (registry_row record) d)
          (foldl (\<lambda>d x. ingest_openclaw_file w
                          (foldl (registry_add (date_parse w)) Map.empty records) (fst x) d (snd x))
             d (agent_items w agents))
          records)
       (codex_items w)"
  by (simp add: ingest_files_def Let_def agent_items_def codex_items_def
        flatten_loops [of "ingest_openclaw_file w (foldl (registry_add (date_parse w)) Map.empty records)"
                          "\<lambda>agent. stat_files w (listOpenClawSessionFiles w agent)"])

lemma ingest_file_registry_loop:
  "ingest_file (foldl (\<lambda>d record. upsertSession w (registry_row record) d) d records) = ingest_file d"
  by (simp add: registry_loop)

lemma ingest_files_settled:
  "(\<forall>x\<in>set (agent_items w agents). file_unchanged openclaw (snd x) (ingest_files w agents records d))
   \<and> (\<forall>x\<in>set (codex_items w). file_unchanged codex x (ingest_files w agents records d))"
proof -
  define reg where "reg = foldl (registry_add (date_parse w)) Map.empty records"
  define A where "A = foldl (\<lambda>d x. ingest_openclaw_file w reg (fst x) d (snd x)) d (agent_items w agents)"
  define R where "R = foldl (\<lambda>d record. upsertSession w (registry_row record) d) A records"
  have Y: "ingest_files w agents records d = foldl (ingest_codex_file w) R (codex_items w)"
    by (simp add: ingest_files_loops R_def A_def reg_def)
  have "\<forall>y\<in>set (agent_items w agents). file_unchanged openclaw (snd y) A"
    unfolding A_def
    by (rule loop_sets) (simp_all add: openclaw_step_sets openclaw_step_keeps agent_items_stat)
  then have settled: "\<forall>y\<in>set (agent_items w agents). file_unchanged openclaw (snd y) R"
    using file_unchanged_cong [of R A] by (simp add: R_def ingest_file_registry_loop)
  have a: "\<forall>y\<in>set (agent_items w agents).
      file_unchanged openclaw (snd y) (foldl (ingest_codex_file w) R (codex_items w))"
  proof
    fix y
    assume y: "y \<in> set (agent_items w agents)"
    with settled have "file_unchanged openclaw (snd y) R" by simp
    then show "file_unchanged openclaw (snd y) (foldl (ingest_codex_file w) R (codex_items w))"
      by (rule loop_keeps [rotated])
         (rule codex_step_keeps, assumption, rule agent_items_stat [OF y], rule codex_items_stat)
  qed
  have "\<forall>y\<in>set (codex_items w). file_unchanged codex (id y) (foldl (ingest_codex_file w) R (codex_items w))"
    by (rule loop_sets) (simp_all add: codex_step_sets codex_step_keeps codex_items_stat)
  with a show ?thesis by (simp add: Y)
qed

section \<open>A second pass\<close>

lemma prune_tables:
  "prune w d = d\<lparr>session_fact := filter (survives w) (session_fact d),
                 session_rollup := filter (survives w) (session_rollup d)\<rparr>"
  by (simp add: prune_def Let_def survives_def [abs_def])

lemma pass_tables:
  "ingestDashboardData w agents records d =
     rebuildTokenDaily
       ((ingest_files w agents records d)
          \<lparr>session_fact := filter (survives w) (session_fact (ingest_files w agents records d)),
           session_rollup := filter (survives w) (session_rollup (ingest_files w agents records d))\<rparr>)"
  by (simp add: ingestDashboardData_def prune_tables)

lemma rebuild_again: "rebuildTokenDaily (snd (rebuildTokenDaily d)) = rebuildTokenDaily d"
  by (simp add: rebuildTokenDaily_def Let_def)

lemma later_items:
  "agent_items (w\<lparr>now := n\<rparr>) agents = agent_items w agents"
  "codex_items (w\<lparr>now := n\<rparr>) = codex_items w"
  by (simp_all add: agent_items_def codex_items_def stat_files_def listOpenClawSessionFiles_def)

lemma later_registry_rows:
  assumes "\<forall>record\<in>set records.
      toTimestamp (date_parse w) (updatedAt record) n = toTimestamp (date_parse w) (updatedAt record) (now w)"
  shows "registry_rows (w\<lparr>now := n\<rparr>) records = registry_rows w records"
  using assms by (simp add: registry_rows_def session_row_def registry_row_def Let_def)

lemma later_survives:
  "survives (w\<lparr>now := n\<rparr>) r = (\<not> no_activity r \<and> \<not> updated_at r < n - SESSION_RETENTION_MS w)"
  by (simp add: survives_def SESSION_RETENTION_MS_def)

text \<open>A pass over a store in which every listed file is recorded as it is writes only the registry's rows.\<close>

lemma settled_ingest_files:
  assumes "\<forall>x\<in>set (agent_items w agents). file_unchanged openclaw (snd x) d"
    and "\<forall>x\<in>set (codex_items w). file_unchanged codex x d"
  shows "ingest_files w agents records d =
     d\<lparr>session_rollup := foldl (\<lambda>rows new. upsertRollup new rows) (session_rollup d)
                             (map rollup_row.truncate (registry_rows w records)),
       session_fact := foldl (\<lambda>rows new. upsertFact new rows) (session_fact d)
                             (registry_rows w records)\<rparr>"
proof -
  define reg where "reg = foldl (registry_add (date_parse w)) Map.empty records"
  define R where "R = foldl (\<lambda>d record. upsertSession w (registry_row record) d) d records"
  have "foldl (\<lambda>d x. ingest_openclaw_file w reg (fst x) d (snd x)) d (agent_items w agents) = d"
    using assms(1) by (intro loop_idle) (simp add: ingest_openclaw_file_def)
  then have Y: "ingest_files w agents records d = foldl (ingest_codex_file w) R (codex_items w)"
    by (simp add: ingest_files_loops R_def reg_def)
  have "ingest_file R = ingest_file d" by (simp add: R_def ingest_file_registry_loop)
  from file_unchanged_cong [OF this] assms(2)
  have "\<forall>x\<in>set (codex_items w). file_unchanged codex x R" by simp
  then have "foldl (ingest_codex_file w) R (codex_items w) = R"
    by (intro loop_idle) (simp add: ingest_codex_file_def)
  with Y show ?thesis by (simp add: R_def registry_loop)
qed

text \<open>The session tables of a pass, as the generic lemma reads them.\<close>

lemma ingest_files_tables:
  assumes "distinct (map row_key (session_fact d)) \<and> distinct (map row_key (session_rollup d))"
  shows "\<exists>XF XR cs. distinct (map row_key XF) \<and> distinct (map row_key XR)
     \<and> (\<forall>c\<in>set cs. c_source c = codex)
     \<and> session_fact (ingest_files w agents records d)
         = foldl (\<lambda>rows new. upsert_by row_key fact_conflict new rows)
             (foldl (\<lambda>rows new. upsert_by row_key fact_conflict new rows) XF (registry_rows w records)) cs
     \<and> session_rollup (ingest_files w agents records d)
         = foldl (\<lambda>rows new. upsert_by row_key rollup_conflict new rows)
             (foldl (\<lambda>rows new. upsert_by row_key rollup_conflict new rows) XR
                (map rollup_row.truncate (registry_rows w records)))
             (map rollup_row.truncate cs)"
proof -
  define reg where "reg = foldl (registry_add (date_parse w)) Map.empty records"
  define A where "A = foldl (\<lambda>d x. ingest_openclaw_file w reg (fst x) d (snd x)) d (agent_items w agents)"
  define R where "R = foldl (\<lambda>d record. upsertSession w (registry_row record) d) A records"
  have Y: "ingest_files w agents records d = foldl (ingest_codex_file w) R (codex_items w)"
    by (simp add: ingest_files_loops R_def A_def reg_def)
  have dA: "distinct (map row_key (session_fact A)) \<and> distinct (map row_key (session_rollup A))"
    unfolding A_def by (rule distinct_openclaw_loop [OF assms])
  from codex_loop [of w R "codex_items w"] obtain cs where cs:
    "\<forall>c\<in>set cs. c_source c = codex"
    "session_fact (foldl (ingest_codex_file w) R (codex_items w))
       = foldl (\<lambda>rows new. upsertFact new rows) (session_fact R) cs"
    "session_rollup (foldl (ingest_codex_file w) R (codex_items w))
       = foldl (\<lambda>rows new. upsertRollup new rows) (session_rollup R) (map rollup_row.truncate cs)"
    by blast
  have "session_fact (ingest_files w agents records d)
      = foldl (\<lambda>rows new. upsert_by row_key fact_conflict new rows)
          (foldl (\<lambda>rows new. upsert_by row_key fact_conflict new rows) (session_fact A)
             (registry_rows w records)) cs"
    unfolding Y cs(2) by (simp add: R_def registry_loop upsertFact_by)
  moreover have "session_rollup (ingest_files w agents records d)
      = foldl (\<lambda>rows new. upsert_by row_key rollup_conflict new rows)
          (foldl (\<lambda>rows new. upsert_by row_key rollup_conflict new rows) (session_rollup A)
             (map rollup_row.truncate (registry_rows w records)))
          (map rollup_row.truncate cs)"
    unfolding Y cs(3) by (simp add: R_def registry_loop upsertRollup_by)
  ultimately show ?thesis using dA cs(1) by blast
qed

lemma second_pass_facts:
  assumes dist: "distinct (map row_key XF)"
    and cs: "\<forall>c\<in>set cs. c_source c = codex"
    and Y: "Y = foldl (\<lambda>rows new. upsert_by row_key fact_conflict new rows)
             (foldl (\<lambda>rows new. upsert_by row_key fact_conflict new rows) XF (registry_rows w records)) cs"
    and clock: "now w \<le> n"
    and fresh: "\<forall>x\<in>set (filter (survives w) Y). \<not> updated_at x < n - SESSION_RETENTION_MS w"
  shows "filter (survives (w\<lparr>now := n\<rparr>))
           (foldl (\<lambda>rows new. upsert_by row_key fact_conflict new rows) (filter (survives w) Y)
              (registry_rows w records))
         = filter (survives w) Y"
proof (rule second_pass_table [where X = XF and cins = cs])
  show "row_key (fact_conflict old new) = row_key old" for old new :: fact_row
    by (rule row_key_fact_conflict)
  show "distinct (map row_key XF)" by (rule dist)
  show "Y = foldl (\<lambda>rows new. upsert_by row_key fact_conflict new rows)
             (foldl (\<lambda>rows new. upsert_by row_key fact_conflict new rows) XF (registry_rows w records)) cs"
    by (rule Y)
  show "\<forall>c\<in>set cs. \<forall>n\<in>set (registry_rows w records). row_key c \<noteq> row_key n"
    using cs by (auto simp: row_key_def openclaw_not_codex openclaw_not_codex [symmetric]
                      dest!: registry_rows_source)
  show "settle row_key fact_conflict (registry_rows w records) k
          (settle row_key fact_conflict (registry_rows w records) k z)
        = settle row_key fact_conflict (registry_rows w records) k z"
    if "\<forall>r. z = Some r \<longrightarrow> row_key r = k" for k z
    by (rule fact_settle_stable [OF that]) (simp add: registry_rows_query)
  show "survives (w\<lparr>now := n\<rparr>) (the (settle row_key fact_conflict (registry_rows w records) k a))
      = survives (w\<lparr>now := n\<rparr>) (the (settle row_key fact_conflict (registry_rows w records) k b))"
    if "\<exists>n\<in>set (registry_rows w records). row_key n = k"
      and "\<forall>r. a = Some r \<longrightarrow> row_key r = k" and "\<forall>r. b = Some r \<longrightarrow> row_key r = k" for k a b
    by (rule survives_fact_settle [OF that(1) _ that(2,3)]) (simp add: registry_rows_query)
  show "survives w x" if "survives (w\<lparr>now := n\<rparr>) x" for x :: fact_row
    using that clock unfolding later_survives by (simp add: survives_def)
  show "\<forall>x\<in>set (filter (survives w) Y). survives (w\<lparr>now := n\<rparr>) x"
    using fresh unfolding later_survives by (simp add: survives_def)
qed

lemma second_pass_rollup:
  assumes dist: "distinct (map row_key XR)"
    and cs: "\<forall>c\<in>set cs. c_source c = codex"
    and Y: "Y = foldl (\<lambda>rows new. upsert_by row_key rollup_conflict new rows)
             (foldl (\<lambda>rows new. upsert_by row_key rollup_conflict new rows) XR
                (map rollup_row.truncate (registry_rows w records)))
             (map rollup_row.truncate cs)"
    and clock: "now w \<le> n"
    and fresh: "\<forall>x\<in>set (filter (survives w) Y). \<not> updated_at x < n - SESSION_RETENTION_MS w"
  shows "filter (survives (w\<lparr>now := n\<rparr>))
           (foldl (\<lambda>rows new. upsert_by row_key rollup_conflict new rows) (filter (survives w) Y)
              (map rollup_row.truncate (registry_rows w records)))
         = filter (survives w) Y"
proof (rule second_pass_table [where X = XR and cins = "map rollup_row.truncate cs"])
  show "row_key (rollup_conflict old new) = row_key old" for old new :: rollup_row
    by (rule row_key_rollup_conflict)
  show "distinct (map row_key XR)" by (rule dist)
  show "Y = foldl (\<lambda>rows new. upsert_by row_key rollup_conflict new rows)
             (foldl (\<lambda>rows new. upsert_by row_key rollup_conflict new rows) XR
                (map rollup_row.truncate (registry_rows w records)))
             (map rollup_row.truncate cs)"
    by (rule Y)
  show "\<forall>c\<in>set (map rollup_row.truncate cs).
          \<forall>n\<in>set (map rollup_row.truncate (registry_rows w records)). row_key c \<noteq> row_key n"
    using cs by (auto simp: row_key_def rollup_row.truncate_def openclaw_not_codex
                        openclaw_not_codex [symmetric] dest!: registry_rows_source)
  show "settle row_key rollup_conflict (map rollup_row.truncate (registry_rows w records)) k
          (settle row_key rollup_conflict (map rollup_row.truncate (registry_rows w records)) k z)
        = settle row_key rollup_conflict (map rollup_row.truncate (registry_rows w records)) k z"
    if "\<forall>r. z = Some r \<longrightarrow> row_key r = k" for k z
    by (rule rollup_settle_stable [OF that])
  show "survives (w\<lparr>now := n\<rparr>)
          (the (settle row_key rollup_conflict (map rollup_row.truncate (registry_rows w records)) k a))
      = survives (w\<lparr>now := n\<rparr>)
          (the (settle row_key rollup_conflict (map rollup_row.truncate (registry_rows w records)) k b))"
    if "\<exists>n\<in>set (map rollup_row.truncate (registry_rows w records)). row_key n = k"
      and "\<forall>r. a = Some r \<longrightarrow> row_key r = k" and "\<forall>r. b = Some r \<longrightarrow> row_key r = k" for k a b
    by (rule survives_rollup_settle [OF that])
  show "survives w x" if "survives (w\<lparr>now := n\<rparr>) x" for x :: rollup_row
    using that clock unfolding later_survives by (simp add: survives_def)
  show "\<forall>x\<in>set (filter (survives w) Y). survives (w\<lparr>now := n\<rparr>) x"
    using fresh unfolding later_survives by (simp add: survives_def)
qed

text \<open>
  The second pass, run when the clock reads \<open>n\<close>, over the same files and the same
  registry records, on the store the first pass has left.
\<close>

lemma second_pass_later:
  assumes wf: "distinct (map row_key (session_fact d)) \<and> distinct (map row_key (session_rollup d))"
    and clock: "now w \<le> n"
    and stamped: "\<forall>record\<in>set records.
       toTimestamp (date_parse w) (updatedAt record) n = toTimestamp (date_parse w) (updatedAt record) (now w)"
    and fresh_facts: "\<forall>x\<in>set (session_fact (snd (ingestDashboardData w agents records d))).
       \<not> updated_at x < n - SESSION_RETENTION_MS w"
    and fresh_rollup: "\<forall>x\<in>set (session_rollup (snd (ingestDashboardData w agents records d))).
       \<not> updated_at x < n - SESSION_RETENTION_MS w"
  shows "ingestDashboardData (w\<lparr>now := n\<rparr>) agents records (snd (ingestDashboardData w agents records d))
       = ingestDashboardData w agents records d"
proof -
  define Y where "Y = ingest_files w agents records d"
  define F where "F = filter (survives w) (session_fact Y)"
  define R where "R = filter (survives w) (session_rollup Y)"
  define P where "P = Y\<lparr>session_fact := F, session_rollup := R\<rparr>"
  define D where "D = snd (rebuildTokenDaily P)"
  have pass: "ingestDashboardData w agents records d = rebuildTokenDaily P"
    by (simp add: P_def Y_def F_def R_def pass_tables)
  have D: "session_fact D = F" "session_rollup D = R" "ingest_file D = ingest_file Y"
    by (simp_all add: D_def rebuild_store P_def)
  from ingest_files_settled [of w agents records d]
  have "(\<forall>x\<in>set (agent_items w agents). file_unchanged openclaw (snd x) Y)
      \<and> (\<forall>x\<in>set (codex_items w). file_unchanged codex x Y)"
    by (simp add: Y_def)
  with file_unchanged_cong [OF D(3)]
  have settled: "\<forall>x\<in>set (agent_items (w\<lparr>now := n\<rparr>) agents). file_unchanged openclaw (snd x) D"
    "\<forall>x\<in>set (codex_items (w\<lparr>now := n\<rparr>)). file_unchanged codex x D"
    by (simp_all add: later_items)
  have again: "ingest_files (w\<lparr>now := n\<rparr>) agents records D =
     D\<lparr>session_rollup := foldl (\<lambda>rows new. upsert_by row_key rollup_conflict new rows) R
                             (map rollup_row.truncate (registry_rows w records)),
       session_fact := foldl (\<lambda>rows new. upsert_by row_key fact_conflict new rows) F
                             (registry_rows w records)\<rparr>"
    unfolding settled_ingest_files [OF settled] later_registry_rows [OF stamped]
    by (simp add: D upsertFact_by upsertRollup_by)
  from ingest_files_tables [OF wf, of w agents records] obtain XF XR cs where
    X: "distinct (map row_key XF)" "distinct (map row_key XR)" "\<forall>c\<in>set cs. c_source c = codex"
      "session_fact Y
         = foldl (\<lambda>rows new. upsert_by row_key fact_conflict new rows)
             (foldl (\<lambda>rows new. upsert_by row_key fact_conflict new rows) XF (registry_rows w records)) cs"
      "session_rollup Y
         = foldl (\<lambda>rows new. upsert_by row_key rollup_conflict new rows)
             (foldl (\<lambda>rows new. upsert_by row_key rollup_conflict new rows) XR
                (map rollup_row.truncate (registry_rows w records)))
             (map rollup_row.truncate cs)"
    unfolding Y_def by blast
  from fresh_facts have "\<forall>x\<in>set (filter (survives w) (session_fact Y)). \<not> updated_at x < n - SESSION_RETENTION_MS w"
    unfolding pass D_def [symmetric] by (simp add: D F_def)
  from second_pass_facts [OF X(1,3,4) clock this]
  have facts: "filter (survives (w\<lparr>now := n\<rparr>))
      (foldl (\<lambda>rows new. upsert_by row_key fact_conflict new rows) F (registry_rows w records)) = F"
    by (simp add: F_def)
  from fresh_rollup have "\<forall>x\<in>set (filter (survives w) (session_rollup Y)). \<not> updated_at x < n - SESSION_RETENTION_MS w"
    unfolding pass D_def [symmetric] by (simp add: D R_def)
  from second_pass_rollup [OF X(2,3,5) clock this]
  have rollup: "filter (survives (w\<lparr>now := n\<rparr>))
      (foldl (\<lambda>rows new. upsert_by row_key rollup_conflict new rows) R
         (map rollup_row.truncate (registry_rows w records))) = R"
    by (simp add: R_def)
  have "D\<lparr>session_fact := F, session_rollup := R\<rparr> = D"
    using D(1,2) by (cases D) simp
  then have "ingestDashboardData (w\<lparr>now := n\<rparr>) agents records D = rebuildTokenDaily D"
    unfolding pass_tables [of "w\<lparr>now := n\<rparr>" agents records D] again
    by (simp add: facts rollup)
  also have "\<dots> = rebuildTokenDaily P" by (simp add: D_def rebuild_again)
  finally show ?thesis by (simp add: pass D_def)
qed

subsection \<open>Two passes on concrete stores\<close>

lemma registry_fact_row:
  "session_row w (registry_row (blank_session\<lparr>model := JStr (str ''gpt''), updatedAt := JNum (Fin t),
       totalTokens := JNum (Fin 9)\<rparr>))
     = registry_fact (if t \<le> 0 then now w else t)"
  by (simp add: session_row_def registry_row_def blank_session_def Let_def toNumber_Fin
      toTimestamp_def opt_string_def normalizeModelName_def or_else_def trim_def is_ws_def
      ws_ranges_def nq_null registry_fact_def openclaw_def codex_def str_def)

lemma registry_fact_writes:
  "writes (registry_row (blank_session\<lparr>model := JStr (str ''gpt''), updatedAt := JNum (Fin t),
       totalTokens := JNum (Fin 9)\<rparr>))"
  by (simp add: writes_def registry_row_def blank_session_def hasTokenActivity_def
      isUnknownZeroNoiseRecord_def Let_def toNumber_Fin str_def)

lemma quiet_ingest_files:
  "ingest_files (quiet_world\<lparr>now := n\<rparr>) []
       [blank_session\<lparr>model := JStr (str ''gpt''), updatedAt := JNum (Fin t), totalTokens := JNum (Fin 9)\<rparr>] d
     = d\<lparr>session_rollup := upsertRollup (rollup_row.truncate (registry_fact (if t \<le> 0 then n else t)))
                               (session_rollup d),
         session_fact := upsertFact (registry_fact (if t \<le> 0 then n else t)) (session_fact d)\<rparr>"
  by (simp add: ingest_files_loops agent_items_def codex_items_def stat_files_def map_filter_simps
      quiet_world_def upsertSession_tables registry_fact_writes registry_fact_row)

lemma unstamped_first_pass:
  "ingestDashboardData quiet_world [] [unstamped_record] empty_store =
     (None,
      \<lparr>session_rollup = [rollup_row.truncate (registry_fact 8640000000)],
       session_fact = [registry_fact 8640000000],
       token_daily = [\<lparr>d_day = Some 100, d_source = openclaw, d_model = str ''gpt'', d_input_tokens = 0,
                       d_output_tokens = 0, d_total_tokens = 9, d_sessions = 1\<rparr>],
       ingest_file = []\<rparr>)"
proof -
  have "ingest_files (quiet_world\<lparr>now := 8640000000\<rparr>) [] [unstamped_record] empty_store
      = empty_store\<lparr>session_rollup := [rollup_row.truncate (registry_fact 8640000000)],
                    session_fact := [registry_fact 8640000000]\<rparr>"
    unfolding unstamped_record_def quiet_ingest_files by (simp add: empty_store_def)
  moreover have "quiet_world\<lparr>now := 8640000000\<rparr> = quiet_world" by (simp add: quiet_world_def)
  ultimately have store: "prune quiet_world (ingest_files quiet_world [] [unstamped_record] empty_store) =
      \<lparr>session_rollup = [rollup_row.truncate (registry_fact 8640000000)],
       session_fact = [registry_fact 8640000000], token_daily = [], ingest_file = []\<rparr>"
    by (simp add: prune_def Let_def empty_store_def SESSION_RETENTION_MS_def no_activity_def
        registry_fact_def rollup_row.truncate_def quiet_world_def)
  have "\<not> insert_fails (filter (\<lambda>r. 0 < total_tokens r) [rollup_row.truncate (registry_fact 8640000000)])"
    by (simp add: rebuild_eval registry_fact_def rollup_row.truncate_def)
  with pass_done [OF store] show ?thesis
    by (simp add: rebuild_eval registry_fact_def rollup_row.truncate_def str_def)
qed

lemma unstamped_second_pass:
  "ingestDashboardData (quiet_world\<lparr>now := 8640000001\<rparr>) [] [unstamped_record]
       \<lparr>session_rollup = [rollup_row.truncate (registry_fact 8640000000)],
        session_fact = [registry_fact 8640000000],
        token_daily = [\<lparr>d_day = Some 100, d_source = openclaw, d_model = str ''gpt'', d_input_tokens = 0,
                        d_output_tokens = 0, d_total_tokens = 9, d_sessions = 1\<rparr>],
        ingest_file = []\<rparr> =
     (None,
      \<lparr>session_rollup = [rollup_row.truncate (registry_fact 8640000001)],
       session_fact = [registry_fact 8640000001],
       token_daily = [\<lparr>d_day = Some 100, d_source = openclaw, d_model = str ''gpt'', d_input_tokens = 0,
                       d_output_tokens = 0, d_total_tokens = 9, d_sessions = 1\<rparr>],
       ingest_file = []\<rparr>)"
proof -
  have store: "prune (quiet_world\<lparr>now := 8640000001\<rparr>)
      (ingest_files (quiet_world\<lparr>now := 8640000001\<rparr>) [] [unstamped_record]
         \<lparr>session_rollup = [rollup_row.truncate (registry_fact 8640000000)],
          session_fact = [registry_fact 8640000000],
          token_daily = [\<lparr>d_day = Some 100, d_source = openclaw, d_model = str ''gpt'',
                          d_input_tokens = 0, d_output_tokens = 0, d_total_tokens = 9, d_sessions = 1\<rparr>],
          ingest_file = []\<rparr>) =
      \<lparr>session_rollup = [rollup_row.truncate (registry_fact 8640000001)],
       session_fact = [registry_fact 8640000001],
       token_daily = [\<lparr>d_day = Some 100, d_source = openclaw, d_model = str ''gpt'',
                       d_input_tokens = 0, d_output_tokens = 0, d_total_tokens = 9, d_sessions = 1\<rparr>],
       ingest_file = []\<rparr>"
    unfolding unstamped_record_def quiet_ingest_files
    by (simp add: prune_def Let_def same_session_def fact_conflict_def coalesce_def
        SESSION_RETENTION_MS_def no_activity_def registry_fact_def rollup_row.truncate_def
        quiet_world_def)
  have "\<not> insert_fails (filter (\<lambda>r. 0 < total_tokens r) [rollup_row.truncate (registry_fact 8640000001)])"
    by (simp add: rebuild_eval registry_fact_def rollup_row.truncate_def)
  with pass_done [OF store] show ?thesis
    by (simp add: rebuild_eval registry_fact_def rollup_row.truncate_def str_def)
qed

lemma stamped_first_pass:
  "ingestDashboardData quiet_world [] [stamped_record] sample_db =
     (None,
      \<lparr>session_rollup = [rollup_row.truncate (registry_fact 8000000001)],
       session_fact = [live_row\<lparr>updated_at := 8000000001, input_tokens := 0, output_tokens := 0,
                                total_tokens := 9\<rparr>],
       token_daily = [\<lparr>d_day = Some 92, d_source = openclaw, d_model = str ''gpt'', d_input_tokens = 0,
                       d_output_tokens = 0, d_total_tokens = 9, d_sessions = 1\<rparr>],
       ingest_file = []\<rparr>)"
proof -
  have "ingest_files (quiet_world\<lparr>now := 8640000000\<rparr>) [] [stamped_record] sample_db
      = sample_db\<lparr>session_rollup := upsertRollup (rollup_row.truncate (registry_fact 8000000001))
                                        (session_rollup sample_db),
                  session_fact := upsertFact (registry_fact 8000000001) (session_fact sample_db)\<rparr>"
    unfolding stamped_record_def quiet_ingest_files by simp
  moreover have "quiet_world\<lparr>now := 8640000000\<rparr> = quiet_world" by (simp add: quiet_world_def)
  ultimately have store: "prune quiet_world (ingest_files quiet_world [] [stamped_record] sample_db) =
      \<lparr>session_rollup = [rollup_row.truncate (registry_fact 8000000001)],
       session_fact = [live_row\<lparr>updated_at := 8000000001, input_tokens := 0, output_tokens := 0,
                                total_tokens := 9\<rparr>],
       token_daily = [old_bucket], ingest_file = []\<rparr>"
    by (simp add: prune_def Let_def sample_db_def
        same_session_def fact_conflict_def coalesce_def idle_row_def old_row_def live_row_def
        SESSION_RETENTION_MS_def no_activity_def registry_fact_def rollup_row.truncate_def
        quiet_world_def str_def openclaw_def)
  have "\<not> insert_fails (filter (\<lambda>r. 0 < total_tokens r) [rollup_row.truncate (registry_fact 8000000001)])"
    by (simp add: rebuild_eval registry_fact_def rollup_row.truncate_def)
  with pass_done [OF store] show ?thesis
    by (simp add: rebuild_eval registry_fact_def rollup_row.truncate_def str_def)
qed

text \<open>
  Claim C2, as the code has it. The world of a pass holds the files, their states
  and the clock; the registry is the list of records. On a store whose session
  tables have no two rows with the same \<open>(source, session_id)\<close>, which is their primary
  key, a second pass over the same files and the same registry records leaves
  exactly the store of the first pass (all four tables), and throws what the first
  pass threw, if it reads the same clock.
  A pass reads the clock, though: it stamps a registry record that has no valid
  timestamp with it, and it removes the rows older than the retention window before
  it. So for a second pass at a later time \<open>n\<close> the same holds if every registry
  record's timestamp resolves to the same value under both clocks, and no row that
  the first pass has kept is older than the retention window before \<open>n\<close>.
\<close>

theorem second_pass_same_state:
  assumes "distinct (map row_key (session_fact d))" and "distinct (map row_key (session_rollup d))"
  shows "ingestDashboardData w agents records (snd (ingestDashboardData w agents records d))
           = ingestDashboardData w agents records d
       \<and> (now w \<le> n
          \<and> (\<forall>record\<in>set records. toTimestamp (date_parse w) (updatedAt record) n
                                     = toTimestamp (date_parse w) (updatedAt record) (now w))
          \<and> (\<forall>x\<in>set (session_fact (snd (ingestDashboardData w agents records d))).
                n - SESSION_RETENTION_MS w \<le> updated_at x)
          \<and> (\<forall>x\<in>set (session_rollup (snd (ingestDashboardData w agents records d))).
                n - SESSION_RETENTION_MS w \<le> updated_at x)
          \<longrightarrow> ingestDashboardData (w\<lparr>now := n\<rparr>) agents records (snd (ingestDashboardData w agents records d))
                = ingestDashboardData w agents records d)"
proof
  from assms have wf: "distinct (map row_key (session_fact d)) \<and> distinct (map row_key (session_rollup d))"
    by simp
  have "\<forall>x\<in>set (session_fact (snd (ingestDashboardData w agents records d))).
      \<not> updated_at x < now w - SESSION_RETENTION_MS w"
    by (simp add: pass_store prune_tables survives_def)
  moreover have "\<forall>x\<in>set (session_rollup (snd (ingestDashboardData w agents records d))).
      \<not> updated_at x < now w - SESSION_RETENTION_MS w"
    by (simp add: pass_store prune_tables survives_def)
  ultimately have "ingestDashboardData (w\<lparr>now := now w\<rparr>) agents records
      (snd (ingestDashboardData w agents records d)) = ingestDashboardData w agents records d"
    by (intro second_pass_later [OF wf]) simp_all
  then show "ingestDashboardData w agents records (snd (ingestDashboardData w agents records d))
      = ingestDashboardData w agents records d"
    by simp
  show "now w \<le> n
      \<and> (\<forall>record\<in>set records. toTimestamp (date_parse w) (updatedAt record) n
                                 = toTimestamp (date_parse w) (updatedAt record) (now w))
      \<and> (\<forall>x\<in>set (session_fact (snd (ingestDashboardData w agents records d))).
            n - SESSION_RETENTION_MS w \<le> updated_at x)
      \<and> (\<forall>x\<in>set (session_rollup (snd (ingestDashboardData w agents records d))).
            n - SESSION_RETENTION_MS w \<le> updated_at x)
      \<longrightarrow> ingestDashboardData (w\<lparr>now := n\<rparr>) agents records (snd (ingestDashboardData w agents records d))
            = ingestDashboardData w agents records d"
  proof
    assume a: "now w \<le> n
      \<and> (\<forall>record\<in>set records. toTimestamp (date_parse w) (updatedAt record) n
                                 = toTimestamp (date_parse w) (updatedAt record) (now w))
      \<and> (\<forall>x\<in>set (session_fact (snd (ingestDashboardData w agents records d))).
            n - SESSION_RETENTION_MS w \<le> updated_at x)
      \<and> (\<forall>x\<in>set (session_rollup (snd (ingestDashboardData w agents records d))).
            n - SESSION_RETENTION_MS w \<le> updated_at x)"
    then have "\<forall>x\<in>set (session_fact (snd (ingestDashboardData w agents records d))).
        \<not> updated_at x < n - SESSION_RETENTION_MS w"
      and "\<forall>x\<in>set (session_rollup (snd (ingestDashboardData w agents records d))).
        \<not> updated_at x < n - SESSION_RETENTION_MS w"
      by (simp_all add: not_less)
    with a show "ingestDashboardData (w\<lparr>now := n\<rparr>) agents records (snd (ingestDashboardData w agents records d))
        = ingestDashboardData w agents records d"
      by (intro second_pass_later [OF wf]) simp_all
  qed
qed

text \<open>
  The sample store, and a registry record for its session \<open>s1\<close> with a recent
  timestamp: a second pass gives the store of the first, at the same clock and one
  millisecond later.
\<close>

theorem second_pass_same_state_witness:
  "distinct (map row_key (session_fact sample_db))
   \<and> distinct (map row_key (session_rollup sample_db))
   \<and> now quiet_world \<le> 8640000001
   \<and> toTimestamp (date_parse quiet_world) (updatedAt stamped_record) 8640000001
       = toTimestamp (date_parse quiet_world) (updatedAt stamped_record) (now quiet_world)
   \<and> session_fact (snd (ingestDashboardData quiet_world [] [stamped_record] sample_db))
       = [live_row\<lparr>updated_at := 8000000001, input_tokens := 0, output_tokens := 0, total_tokens := 9\<rparr>]
   \<and> ingestDashboardData quiet_world [] [stamped_record]
         (snd (ingestDashboardData quiet_world [] [stamped_record] sample_db))
       = ingestDashboardData quiet_world [] [stamped_record] sample_db
   \<and> ingestDashboardData (quiet_world\<lparr>now := 8640000001\<rparr>) [] [stamped_record]
         (snd (ingestDashboardData quiet_world [] [stamped_record] sample_db))
       = ingestDashboardData quiet_world [] [stamped_record] sample_db"
proof -
  have keys: "distinct (map row_key (session_fact sample_db))"
    "distinct (map row_key (session_rollup sample_db))"
    by (simp_all add: sample_db_def row_key_def rollup_row.truncate_def idle_row_def old_row_def
          live_row_def str_def)
  have clock: "now quiet_world \<le> 8640000001" by (simp add: quiet_world_def)
  have stamped: "toTimestamp (date_parse quiet_world) (updatedAt stamped_record) 8640000001
       = toTimestamp (date_parse quiet_world) (updatedAt stamped_record) (now quiet_world)"
    by (simp add: stamped_record_def toTimestamp_def)
  have fresh: "\<forall>x\<in>set (session_fact (snd (ingestDashboardData quiet_world [] [stamped_record] sample_db))).
        8640000001 - SESSION_RETENTION_MS quiet_world \<le> updated_at x"
    "\<forall>x\<in>set (session_rollup (snd (ingestDashboardData quiet_world [] [stamped_record] sample_db))).
        8640000001 - SESSION_RETENTION_MS quiet_world \<le> updated_at x"
    unfolding stamped_first_pass
    by (simp_all add: SESSION_RETENTION_MS_def quiet_world_def rollup_row.truncate_def
          registry_fact_def)
  from second_pass_same_state [OF keys, where w = quiet_world and agents = "[]"
      and records = "[stamped_record]" and n = 8640000001] clock stamped fresh
  have "ingestDashboardData quiet_world [] [stamped_record]
         (snd (ingestDashboardData quiet_world [] [stamped_record] sample_db))
       = ingestDashboardData quiet_world [] [stamped_record] sample_db
   \<and> ingestDashboardData (quiet_world\<lparr>now := 8640000001\<rparr>) [] [stamped_record]
         (snd (ingestDashboardData quiet_world [] [stamped_record] sample_db))
       = ingestDashboardData quiet_world [] [stamped_record] sample_db"
    by simp
  moreover have "session_fact (snd (ingestDashboardData quiet_world [] [stamped_record] sample_db))
       = [live_row\<lparr>updated_at := 8000000001, input_tokens := 0, output_tokens := 0, total_tokens := 9\<rparr>]"
    by (simp add: stamped_first_pass)
  ultimately show ?thesis using keys clock stamped by simp
qed

text \<open>
  Claim C2, as the specification has it, fails when the clock has moved between
  the two passes. The registry gives a record with tokens and no timestamp the
  \<^verbatim>\<open>updatedAt\<close> 0; \<^verbatim>\<open>upsertSession\<close> stores it with the time of the pass. A second pass
  one millisecond later, over the same (empty) file set and the same registry
  record, stores the row with another time.
\<close>

theorem later_pass_counterexample:
  "session_fact (snd (ingestDashboardData quiet_world [] [unstamped_record] empty_store))
     = [registry_fact 8640000000]
   \<and> session_fact (snd (ingestDashboardData (quiet_world\<lparr>now := 8640000001\<rparr>) [] [unstamped_record]
        (snd (ingestDashboardData quiet_world [] [unstamped_record] empty_store))))
     = [registry_fact 8640000001]
   \<and> ingestDashboardData (quiet_world\<lparr>now := 8640000001\<rparr>) [] [unstamped_record]
        (snd (ingestDashboardData quiet_world [] [unstamped_record] empty_store))
     \<noteq> ingestDashboardData quiet_world [] [unstamped_record] empty_store"
  unfolding unstamped_first_pass snd_conv unstamped_second_pass by (simp add: registry_fact_def)

end
